theory Spec2Isabelle
  imports Complex_Main "HOL-Library.Sublist" "HOL-Library.Multiset" "HOL-Library.Monad_Syntax"
begin

section \<open>Strings and characters\<close>

text \<open>
  The matching engine (\<^verbatim>\<open>matching.ts\<close>) works on JavaScript strings. They are modelled as
  \<^typ>\<open>string\<close>, a list of 8-bit characters read as the code units U+0000 to U+00FF; on this
  range \<^verbatim>\<open>toLowerCase\<close> maps one character to one character. \<^verbatim>\<open>s.length\<close> is
  \<^term>\<open>length s\<close> and \<^verbatim>\<open>s[i]\<close> is \<^term>\<open>s ! i\<close>.
\<close>

definition isAsciiLetter :: "char \<Rightarrow> bool" where
  \<comment> \<open>\<^verbatim>\<open>/[a-z]/i.test(c)\<close> and the character class of \<^verbatim>\<open>/[a-zA-Z]+/g\<close>\<close>
  "isAsciiLetter c =
     (let n = (of_char c :: nat) in (65 \<le> n \<and> n \<le> 90) \<or> (97 \<le> n \<and> n \<le> 122))"

definition toLowerChar :: "char \<Rightarrow> char" where
  \<comment> \<open>\<^verbatim>\<open>toLowerCase\<close> on one code unit below U+0100: A-Z, and the accented capitals
      U+00C0 to U+00DE except the multiplication sign U+00D7, move up by 32\<close>
  "toLowerChar c =
     (let n = (of_char c :: nat)
      in if (65 \<le> n \<and> n \<le> 90) \<or> (192 \<le> n \<and> n \<le> 222 \<and> n \<noteq> 215)
         then char_of (n + 32) else c)"

definition toLowerCase :: "string \<Rightarrow> string" where
  "toLowerCase s = map toLowerChar s"

section \<open>Data model\<close>

record TitleWord =
  word :: string
  startIndex :: nat
  letterStartIndex :: nat
  letterEndIndex :: nat

record TitleInfo =
  original :: string
  letters :: string
  letterPositions :: "nat list"
  words :: "TitleWord list"
  initials :: string

datatype MatchType = Exact | Compound | Near

record WordMatch =
  mword :: string
  indices :: "nat list"
  niceness :: rat
  mtype :: MatchType
  components :: "string list option"
  editDist :: "nat option"

text \<open>
  The fields \<^verbatim>\<open>word\<close>, \<^verbatim>\<open>type\<close> and \<^verbatim>\<open>editDistance\<close> of a \<^verbatim>\<open>WordMatch\<close> are named
  \<^term>\<open>mword\<close>, \<^term>\<open>mtype\<close> and \<^term>\<open>editDist\<close>; an absent optional field is
  \<^term>\<open>None\<close>.

  A JavaScript \<^verbatim>\<open>number\<close> that holds a score is a rational here: sums, products and
  quotients are exact, the rounding error of double-precision arithmetic is not modelled.
  A division returns \<^term>\<open>None\<close> when its divisor is zero, where JavaScript yields
  \<^verbatim>\<open>NaN\<close> or an infinity; a function that computes with such a quotient returns
  \<^term>\<open>None\<close> as well.
\<close>

definition jsDivide :: "rat \<Rightarrow> rat \<Rightarrow> rat option" where
  "jsDivide a b = (if b = 0 then None else Some (a / b))"

definition mathRound :: "rat \<Rightarrow> int" where
  \<comment> \<open>\<^verbatim>\<open>Math.round\<close>: the nearest integer, halves upwards\<close>
  "mathRound x = \<lfloor>x + 1 / 2\<rfloor>"

definition round2 :: "rat \<Rightarrow> rat" where
  \<comment> \<open>\<^verbatim>\<open>Math.round(x * 100) / 100\<close>\<close>
  "round2 x = of_int (mathRound (x * 100)) / 100"

section \<open>Title analyzer\<close>

text \<open>
  \<^verbatim>\<open>for (let i = 0; i < title.length; i++)\<close>: the first loop of \<^verbatim>\<open>analyzeTitleTitle\<close>,
  with the pair of \<^verbatim>\<open>letterPositions\<close> and \<^verbatim>\<open>letters\<close> as its state.
\<close>

function letterLoop :: "string \<Rightarrow> nat \<Rightarrow> nat list \<times> string \<Rightarrow> nat list \<times> string" where
  "letterLoop title i (lps, ls) =
     (if i < length title
      then (if isAsciiLetter (title ! i)
            then letterLoop title (i + 1) (lps @ [i], ls @ [toLowerChar (title ! i)])
            else letterLoop title (i + 1) (lps, ls))
      else (lps, ls))"
  by pat_completeness auto
termination
  by (relation "measure (\<lambda>(title, i, st). length title - i)") auto

declare letterLoop.simps [simp del]

text \<open>
  \<^verbatim>\<open>wordRegex.exec(title)\<close> for the global regular expression \<^verbatim>\<open>/[a-zA-Z]+/g\<close>: starting at
  \<^verbatim>\<open>lastIndex\<close>, the leftmost position holding a letter and the maximal run of letters from
  there; \<^verbatim>\<open>null\<close> when no letter is left. The result is \<^verbatim>\<open>(match.index, match[0])\<close>.
\<close>

function regexExec :: "string \<Rightarrow> nat \<Rightarrow> (nat \<times> string) option" where
  "regexExec title lastIndex =
     (if lastIndex < length title
      then (if isAsciiLetter (title ! lastIndex)
            then Some (lastIndex, takeWhile isAsciiLetter (drop lastIndex title))
            else regexExec title (lastIndex + 1))
      else None)"
  by pat_completeness auto
termination
  by (relation "measure (\<lambda>(title, i). length title - i)") auto

lemma regexExec_bounds:
  "regexExec title i = Some (k, m) \<Longrightarrow>
     i \<le> k \<and> k < length title \<and> m \<noteq> [] \<and> k + length m \<le> length title"
proof (induction title i rule: regexExec.induct)
  case (1 title lastIndex)
  show ?case
  proof (cases "lastIndex < length title")
    case False
    with "1.prems" show ?thesis by simp
  next
    case inb: True
    show ?thesis
    proof (cases "isAsciiLetter (title ! lastIndex)")
      case True
      with inb "1.prems"
      have k: "k = lastIndex" and m: "m = takeWhile isAsciiLetter (drop lastIndex title)"
        by auto
      from inb have d: "drop lastIndex title = title ! lastIndex # drop (Suc lastIndex) title"
        by (simp add: Cons_nth_drop_Suc)
      have "length m \<le> length (drop lastIndex title)"
        unfolding m by (rule length_takeWhile_le)
      moreover have "m \<noteq> []" unfolding m d using True by simp
      ultimately show ?thesis using k inb by simp
    next
      case False
      with inb "1.prems" have "regexExec title (lastIndex + 1) = Some (k, m)" by simp
      from "1.IH" [OF inb False this] show ?thesis by simp
    qed
  qed
qed

declare regexExec.simps [simp del]

text \<open>
  \<^verbatim>\<open>while ((match = wordRegex.exec(title)) !== null)\<close>: the state is the regular expression's
  \<^verbatim>\<open>lastIndex\<close>, the running \<^verbatim>\<open>letterIndex\<close> and the \<^verbatim>\<open>words\<close> pushed so far.
\<close>

function execLoop :: "string \<Rightarrow> nat \<Rightarrow> nat \<Rightarrow> TitleWord list \<Rightarrow> TitleWord list" where
  "execLoop title lastIndex letterIndex ws =
     (case regexExec title lastIndex of
        None \<Rightarrow> ws
      | Some (matchIndex, matched) \<Rightarrow>
          (let w = toLowerCase matched;
               letterStart = letterIndex;
               letterIndex' = letterIndex + length w
           in execLoop title (matchIndex + length matched) letterIndex'
                (ws @ [\<lparr>word = w, startIndex = matchIndex,
                         letterStartIndex = letterStart, letterEndIndex = letterIndex'\<rparr>])))"
  by pat_completeness auto
termination
proof (relation "measure (\<lambda>(title, i, li, ws). length title - i)")
  show "wf (measure (\<lambda>(title, i, li, ws). length title - i))" by simp
next
  fix title lastIndex letterIndex ws x2 matchIndex matched w letterStart letterIndex'
  assume "regexExec title lastIndex = Some x2" "(matchIndex, matched) = x2"
  then have "regexExec title lastIndex = Some (matchIndex, matched)" by simp
  from regexExec_bounds [OF this]
  have "lastIndex \<le> matchIndex" "matchIndex < length title" "matched \<noteq> []" by simp_all
  then have "length title - (matchIndex + length matched) < length title - lastIndex"
    by (cases matched) auto
  then show "((title, matchIndex + length matched, letterIndex',
               ws @ [\<lparr>word = w, startIndex = matchIndex, letterStartIndex = letterStart,
                       letterEndIndex = letterIndex'\<rparr>]),
              (title, lastIndex, letterIndex, ws))
             \<in> measure (\<lambda>(title, i, li, ws). length title - i)"
    by simp
qed

declare execLoop.simps [simp del]

definition analyzeTitleTitle :: "string \<Rightarrow> TitleInfo" where
  \<comment> \<open>\<^verbatim>\<open>words.map(w => w.word[0]).join('')\<close>: an empty word would contribute nothing\<close>
  "analyzeTitleTitle title =
     (let (lps, ls) = letterLoop title 0 ([], []);
          ws = execLoop title 0 0 [];
          ini = concat (map (\<lambda>w. take 1 (word w)) ws)
      in \<lparr>original = title, letters = ls, letterPositions = lps, words = ws, initials = ini\<rparr>)"

section \<open>Subsequence matcher\<close>

text \<open>
  The two nested loops of \<^verbatim>\<open>findWordInTitle\<close> share the cursor \<^verbatim>\<open>titleIdx\<close>. The state is
  the cursor, the characters of \<^verbatim>\<open>wordLower\<close> still to be matched and the \<^verbatim>\<open>indices\<close>
  pushed so far; \<^verbatim>\<open>return null\<close> is \<^term>\<open>None\<close>. The read
  \<^verbatim>\<open>letterPositions[titleIdx]\<close> is in range when \<^verbatim>\<open>letterPositions\<close> is as long as
  \<^verbatim>\<open>letters\<close>.
\<close>

function findLoop :: "TitleInfo \<Rightarrow> nat \<Rightarrow> string \<Rightarrow> nat list \<Rightarrow> nat list option" where
  "findLoop ti titleIdx [] idxs = Some idxs"
| "findLoop ti titleIdx (c # cs) idxs =
     (if titleIdx < length (letters ti)
      then (if letters ti ! titleIdx = c
            then findLoop ti (titleIdx + 1) cs (idxs @ [letterPositions ti ! titleIdx])
            else findLoop ti (titleIdx + 1) (c # cs) idxs)
      else None)"
  by pat_completeness auto
termination
  by (relation "measure (\<lambda>(ti, titleIdx, cs, idxs). length (letters ti) - titleIdx)") auto

declare findLoop.simps [simp del]

definition findWordInTitle :: "TitleInfo \<Rightarrow> string \<Rightarrow> nat list option" where
  "findWordInTitle ti w =
     (let wordLower = toLowerCase w
      in if length (letters ti) < length wordLower then None
         else findLoop ti 0 wordLower [])"

section \<open>Niceness scorer\<close>

text \<open>
  \<^verbatim>\<open>calculateNiceness\<close> as in the later copy of \<^verbatim>\<open>matching.ts\<close> (first-letter bonus and
  guarded divisions). \<^verbatim>\<open>Array.prototype.indexOf\<close> returns \<open>-1\<close> for a value that does not
  occur.
\<close>

fun indexOf :: "nat list \<Rightarrow> nat \<Rightarrow> int" where
  "indexOf [] x = -1"
| "indexOf (y # ys) x =
     (if y = x then 0 else (let r = indexOf ys x in if r < 0 then -1 else r + 1))"

definition letterIndicesOf :: "TitleInfo \<Rightarrow> nat list \<Rightarrow> int list" where
  \<comment> \<open>\<^verbatim>\<open>indices.map(origIdx => letterPositions.indexOf(origIdx)).filter(i => i >= 0)\<close>\<close>
  "letterIndicesOf ti idxs = filter (\<lambda>i. 0 \<le> i) (map (indexOf (letterPositions ti)) idxs)"

definition inWord :: "TitleWord \<Rightarrow> int \<Rightarrow> bool" where
  \<comment> \<open>\<^verbatim>\<open>letterIdx >= tw.letterStartIndex && letterIdx < tw.letterEndIndex\<close>\<close>
  "inWord tw letterIdx \<longleftrightarrow>
     int (letterStartIndex tw) \<le> letterIdx \<and> letterIdx < int (letterEndIndex tw)"

definition firstLetterBonus :: "TitleInfo \<Rightarrow> int list \<Rightarrow> rat" where
  \<comment> \<open>section 0 of the function: 25 points for the first letter of the first word\<close>
  "firstLetterBonus ti letterIndices =
     (if length (words ti) > 0
      then (let firstWordFirstLetter = letterStartIndex (words ti ! 0)
            in if int firstWordFirstLetter \<in> set letterIndices then 25 else 0)
      else 0)"

text \<open>
  The \<^verbatim>\<open>Set<number>\<close> \<^verbatim>\<open>wordsUsed\<close> is a list without repetitions, \<^verbatim>\<open>add\<close> appends
  a new element and \<^verbatim>\<open>size\<close> is the length. The inner loop over \<^verbatim>\<open>wi\<close> stops at the
  first title word whose range holds the letter.
\<close>

definition setAdd :: "nat list \<Rightarrow> nat \<Rightarrow> nat list" where
  "setAdd used wi = (if wi \<in> set used then used else used @ [wi])"

fun wordsUsedInner :: "TitleWord list \<Rightarrow> int \<Rightarrow> nat \<Rightarrow> nat list \<Rightarrow> nat list" where
  "wordsUsedInner [] letterIdx wi used = used"
| "wordsUsedInner (tw # tws) letterIdx wi used =
     (if inWord tw letterIdx then setAdd used wi
      else wordsUsedInner tws letterIdx (wi + 1) used)"

fun wordsUsedLoop :: "TitleInfo \<Rightarrow> int list \<Rightarrow> nat list \<Rightarrow> nat list" where
  "wordsUsedLoop ti [] used = used"
| "wordsUsedLoop ti (letterIdx # rest) used =
     wordsUsedLoop ti rest (wordsUsedInner (words ti) letterIdx 0 used)"

definition wordCoverageTerm :: "TitleInfo \<Rightarrow> int list \<Rightarrow> rat option" where
  \<comment> \<open>section 1: \<^verbatim>\<open>wordCoverage * 40\<close>\<close>
  "wordCoverageTerm ti letterIndices =
     (let wordsUsed = wordsUsedLoop ti letterIndices []
      in do {
        wordCoverage \<leftarrow> (if length (words ti) > 0
                          then jsDivide (of_nat (length wordsUsed)) (of_nat (length (words ti)))
                          else Some 0);
        Some (wordCoverage * 40)
      })"

fun startLetterInner :: "TitleWord list \<Rightarrow> int \<Rightarrow> rat \<Rightarrow> rat option" where
  "startLetterInner [] letterIdx startLetterScore = Some startLetterScore"
| "startLetterInner (tw # tws) letterIdx startLetterScore =
     (if inWord tw letterIdx
      then (let posInWord = letterIdx - int (letterStartIndex tw);
                wordLength = int (letterEndIndex tw) - int (letterStartIndex tw);
                denom = max (wordLength - 1) 1
            in do {
              q \<leftarrow> jsDivide (of_int posInWord) (of_int denom);
              Some (startLetterScore + (1 - q))
            })
      else startLetterInner tws letterIdx startLetterScore)"

fun startLetterLoop :: "TitleInfo \<Rightarrow> int list \<Rightarrow> rat \<Rightarrow> rat option" where
  "startLetterLoop ti [] startLetterScore = Some startLetterScore"
| "startLetterLoop ti (letterIdx # rest) startLetterScore =
     do {
       s \<leftarrow> startLetterInner (words ti) letterIdx startLetterScore;
       startLetterLoop ti rest s
     }"

definition startLetterTerm :: "TitleInfo \<Rightarrow> nat \<Rightarrow> int list \<Rightarrow> rat option" where
  \<comment> \<open>section 2: \<^verbatim>\<open>(startLetterScore / Math.max(wordLen, 1)) * 30\<close>\<close>
  "startLetterTerm ti wordLen letterIndices =
     do {
       startLetterScore \<leftarrow> startLetterLoop ti letterIndices 0;
       q \<leftarrow> jsDivide startLetterScore (of_nat (max wordLen 1));
       Some (q * 30)
     }"

function initialsLoop :: "string \<Rightarrow> string \<Rightarrow> nat \<Rightarrow> nat \<Rightarrow> nat" where
  "initialsLoop wordLower ini i initialsMatched =
     (if i < min (length wordLower) (length ini)
      then (if wordLower ! i = ini ! i
            then initialsLoop wordLower ini (i + 1) (initialsMatched + 1)
            else initialsMatched)
      else initialsMatched)"
  by pat_completeness auto
termination
  by (relation "measure (\<lambda>(wordLower, ini, i, m). min (length wordLower) (length ini) - i)") auto

declare initialsLoop.simps [simp del]

definition initialsTerm :: "TitleInfo \<Rightarrow> string \<Rightarrow> rat option" where
  \<comment> \<open>section 3: the bonus for starting with the initials\<close>
  "initialsTerm ti w =
     (let wordLower = toLowerCase w;
          initialsMatched = initialsLoop wordLower (initials ti) 0 0
      in if initialsMatched > 0 \<and> length (initials ti) > 0
         then do {
           q \<leftarrow> jsDivide (of_nat initialsMatched) (of_nat (length (initials ti)));
           Some (q * 20)
         }
         else Some 0)"

definition lengthBonus :: "nat \<Rightarrow> rat" where
  \<comment> \<open>section 4: \<^verbatim>\<open>Math.min(wordLen / 10, 1) * 10\<close>\<close>
  "lengthBonus wordLen = min (of_nat wordLen / 10) 1 * 10"

definition calculateNiceness :: "TitleInfo \<Rightarrow> string \<Rightarrow> nat list \<Rightarrow> rat option" where
  "calculateNiceness ti w idxs =
     (let wordLen = length w;
          letterIndices = letterIndicesOf ti idxs
      in do {
        coverage \<leftarrow> wordCoverageTerm ti letterIndices;
        startLetter \<leftarrow> startLetterTerm ti wordLen letterIndices;
        ini \<leftarrow> initialsTerm ti w;
        Some (round2 (firstLetterBonus ti letterIndices + coverage + startLetter + ini
                        + lengthBonus wordLen))
      })"

section \<open>Exact match search and compound synthesizer\<close>

definition isWhiteSpace :: "char \<Rightarrow> bool" where
  \<comment> \<open>the white space and line terminators below U+0100\<close>
  "isWhiteSpace c \<longleftrightarrow> (of_char c :: nat) \<in> {9, 10, 11, 12, 13, 32, 160}"

definition trim :: "string \<Rightarrow> string" where
  "trim s = rev (dropWhile isWhiteSpace (rev (dropWhile isWhiteSpace s)))"

fun stringIncludes :: "string \<Rightarrow> string \<Rightarrow> bool" where
  \<comment> \<open>\<^verbatim>\<open>s.includes(t)\<close>: \<open>t\<close> occurs in \<open>s\<close> as a contiguous substring\<close>
  "stringIncludes [] t = (t = [])"
| "stringIncludes (c # cs) t = (prefix t (c # cs) \<or> stringIncludes cs t)"

definition buildWordSet :: "string list \<Rightarrow> string set" where
  "buildWordSet ws = set (map toLowerCase ws)"

text \<open>
  \<^verbatim>\<open>Array.prototype.sort\<close> with a comparator is a stable sort: here insertion from the
  right, each element placed before the first one it does not compare greater than.
  \<^verbatim>\<open>String.prototype.localeCompare\<close> is taken as the comparison of the strings character
  by character by code, a proper prefix first, which is the order of the English collation on
  words of lowercase letters a to z.
\<close>

fun insertSorted :: "('a \<Rightarrow> 'a \<Rightarrow> rat) \<Rightarrow> 'a \<Rightarrow> 'a list \<Rightarrow> 'a list" where
  "insertSorted cmp x [] = [x]"
| "insertSorted cmp x (y # ys) =
     (if cmp x y \<le> 0 then x # y # ys else y # insertSorted cmp x ys)"

definition jsSort :: "('a \<Rightarrow> 'a \<Rightarrow> rat) \<Rightarrow> 'a list \<Rightarrow> 'a list" where
  "jsSort cmp xs = foldr (insertSorted cmp) xs []"

fun localeCompare :: "string \<Rightarrow> string \<Rightarrow> int" where
  "localeCompare [] [] = 0"
| "localeCompare [] (d # ds) = -1"
| "localeCompare (c # cs) [] = 1"
| "localeCompare (c # cs) (d # ds) =
     (if (of_char c :: nat) < of_char d then -1
      else if (of_char d :: nat) < of_char c then 1
      else localeCompare cs ds)"

definition compareMatches :: "WordMatch \<Rightarrow> WordMatch \<Rightarrow> rat" where
  \<comment> \<open>the comparator of the exact and of the generated compound matches\<close>
  "compareMatches a b =
     (if niceness b \<noteq> niceness a then niceness b - niceness a
      else if length (mword b) \<noteq> length (mword a)
           then of_int (int (length (mword b)) - int (length (mword a)))
           else of_int (localeCompare (mword a) (mword b)))"

text \<open>
  The scan of the dictionary, \<^verbatim>\<open>for (const word of allWords)\<close>. The scorer is a parameter
  since the two copies of \<^verbatim>\<open>findAllMatches\<close> call their own \<^verbatim>\<open>calculateNiceness\<close>;
  \<open>active\<close> is the truth value that guards the substring filter. The scan returns
  \<^term>\<open>None\<close> when a score is not a number.
\<close>

fun exactLoop :: "(TitleInfo \<Rightarrow> string \<Rightarrow> nat list \<Rightarrow> rat option) \<Rightarrow> TitleInfo \<Rightarrow> nat \<Rightarrow> bool \<Rightarrow>
    string \<Rightarrow> string list \<Rightarrow> WordMatch list \<Rightarrow> WordMatch list option" where
  "exactLoop calc ti minLength active searchLower [] matches = Some matches"
| "exactLoop calc ti minLength active searchLower (w # ws) matches =
     (if length w < minLength then exactLoop calc ti minLength active searchLower ws matches
      else if length w > length (letters ti)
        then exactLoop calc ti minLength active searchLower ws matches
      else if active \<and> \<not> stringIncludes w searchLower
        then exactLoop calc ti minLength active searchLower ws matches
      else case findWordInTitle ti w of
             None \<Rightarrow> exactLoop calc ti minLength active searchLower ws matches
           | Some idxs \<Rightarrow>
               do {
                 n \<leftarrow> calc ti w idxs;
                 exactLoop calc ti minLength active searchLower ws
                   (matches @ [\<lparr>mword = w, indices = idxs, niceness = n, mtype = Exact,
                                components = None, editDist = None\<rparr>])
               })"

text \<open>
  One pair of pool entries in \<^verbatim>\<open>generateCompoundMatches\<close>: \<^term>\<open>Some None\<close> is
  \<^verbatim>\<open>continue\<close>, \<^term>\<open>Some (Some m)\<close> is the match to push.
\<close>

definition tryCompound :: "TitleInfo \<Rightarrow> string set \<Rightarrow> string \<Rightarrow> nat \<Rightarrow> string set \<Rightarrow>
    WordMatch \<Rightarrow> WordMatch \<Rightarrow> WordMatch option option" where
  "tryCompound ti wordSet searchLower minWordLength seen first second =
     (let combinedWord = mword first @ mword second
      in if length combinedWord < minWordLength then Some None
         else if length combinedWord > length (letters ti) then Some None
         else if searchLower \<noteq> [] \<and> \<not> stringIncludes combinedWord searchLower then Some None
         else if combinedWord \<in> wordSet then Some None
         else if combinedWord \<in> seen then Some None
         else case findWordInTitle ti combinedWord of
                None \<Rightarrow> Some None
              | Some idxs \<Rightarrow>
                  do {
                    n \<leftarrow> calculateNiceness ti combinedWord idxs;
                    let penalised = n * (9 / 10);
                    Some (Some \<lparr>mword = combinedWord, indices = idxs,
                                 niceness = round2 penalised, mtype = Compound,
                                 components = Some [mword first, mword second],
                                 editDist = None\<rparr>)
                  })"

function compoundInner :: "TitleInfo \<Rightarrow> string set \<Rightarrow> string \<Rightarrow> nat \<Rightarrow> WordMatch list \<Rightarrow> nat \<Rightarrow>
    nat \<Rightarrow> nat \<Rightarrow> string set \<times> WordMatch list \<Rightarrow> (string set \<times> WordMatch list) option" where
  "compoundInner ti wordSet searchLower minWordLength pool maxCandidates i j (seen, compounds) =
     (if j < length pool
      then (if i = j
            then compoundInner ti wordSet searchLower minWordLength pool maxCandidates i (j + 1)
                   (seen, compounds)
            else case tryCompound ti wordSet searchLower minWordLength seen (pool ! i) (pool ! j) of
                   None \<Rightarrow> None
                 | Some None \<Rightarrow>
                     compoundInner ti wordSet searchLower minWordLength pool maxCandidates i (j + 1)
                       (seen, compounds)
                 | Some (Some m) \<Rightarrow>
                     (let compounds' = compounds @ [m];
                          seen' = insert (mword m) seen
                      in if length compounds' \<ge> maxCandidates then Some (seen', compounds')
                         else compoundInner ti wordSet searchLower minWordLength pool
                                maxCandidates i (j + 1) (seen', compounds')))
      else Some (seen, compounds))"
  by pat_completeness auto
termination
  by (relation "measure (\<lambda>(ti, ws, sl, ml, pool, mc, i, j, st). length pool - j)") auto

declare compoundInner.simps [simp del]

function compoundOuter :: "TitleInfo \<Rightarrow> string set \<Rightarrow> string \<Rightarrow> nat \<Rightarrow> WordMatch list \<Rightarrow> nat \<Rightarrow>
    nat \<Rightarrow> string set \<times> WordMatch list \<Rightarrow> (string set \<times> WordMatch list) option" where
  "compoundOuter ti wordSet searchLower minWordLength pool maxCandidates i (seen, compounds) =
     (if i < length pool
      then (case compoundInner ti wordSet searchLower minWordLength pool maxCandidates i 0
                   (seen, compounds) of
              None \<Rightarrow> None
            | Some (seen', compounds') \<Rightarrow>
                if length compounds' \<ge> maxCandidates then Some (seen', compounds')
                else compoundOuter ti wordSet searchLower minWordLength pool maxCandidates (i + 1)
                       (seen', compounds'))
      else Some (seen, compounds))"
  by pat_completeness auto
termination
  by (relation "measure (\<lambda>(ti, ws, sl, ml, pool, mc, i, st). length pool - i)") auto

declare compoundOuter.simps [simp del]

definition generateCompoundMatches :: "TitleInfo \<Rightarrow> WordMatch list \<Rightarrow> string set \<Rightarrow> string \<Rightarrow> nat \<Rightarrow>
    nat \<Rightarrow> nat \<Rightarrow> nat \<Rightarrow> WordMatch list option" where
  "generateCompoundMatches ti exactMatches wordSet searchLower minWordLength maxResults
       minComponentLength componentPoolSize =
     (if maxResults \<le> 0 then Some []
      else let usableMatches = filter (\<lambda>m. length (mword m) \<ge> minComponentLength) exactMatches
           in if length usableMatches < 2 then Some []
              else let componentPool = take componentPoolSize usableMatches;
                       maxCandidates = max (maxResults * 3) (length componentPool)
                   in do {
                        (seen, compounds) \<leftarrow>
                          compoundOuter ti wordSet searchLower minWordLength componentPool
                            maxCandidates 0 ({}, []);
                        Some (take maxResults (jsSort compareMatches compounds))
                      })"

text \<open>
  \<^verbatim>\<open>findAllMatches\<close> of the later copy, with the fields of \<^verbatim>\<open>options\<close> as arguments; the
  result is the pair of \<^verbatim>\<open>exact\<close> and \<^verbatim>\<open>compound\<close>. The default
  \<^verbatim>\<open>componentPoolSize\<close> is 80.
\<close>

definition findAllMatches :: "TitleInfo \<Rightarrow> string list \<Rightarrow> string set \<Rightarrow> nat \<Rightarrow> nat \<Rightarrow> string \<Rightarrow> bool \<Rightarrow>
    (WordMatch list \<times> WordMatch list) option" where
  "findAllMatches ti allWords wordSet minLength maxResults searchTerm includeCompounds =
     (let searchLower = toLowerCase (trim searchTerm)
      in do {
        allExactMatches \<leftarrow>
          exactLoop calculateNiceness ti minLength (searchLower \<noteq> []) searchLower allWords [];
        let sorted = jsSort compareMatches allExactMatches;
        let exact = take maxResults sorted;
        let exactWordSet = set (map mword exact);
        compound \<leftarrow>
          (if includeCompounds
           then (let compoundLimit = max 1 (maxResults div 2);
                     minComponentLength = max 2 (min 4 minLength)
                 in do {
                      generated \<leftarrow>
                        generateCompoundMatches ti sorted wordSet searchLower minLength
                          compoundLimit minComponentLength 80;
                      Some (filter (\<lambda>c. mword c \<notin> exactWordSet) generated)
                    })
           else Some []);
        Some (exact, compound)
      })"

section \<open>Edit distance engine\<close>

text \<open>
  \<^verbatim>\<open>editDistance\<close> keeps the two rows \<^verbatim>\<open>prev\<close> and \<^verbatim>\<open>curr\<close> in arrays of \<open>n + 1\<close>
  cells, here lists of that length updated in place (\<^verbatim>\<open>curr\<close> is written \<open>cur\<close>). A cell of \<^verbatim>\<open>new Array(n + 1)\<close> that
  has not been written yet holds 0 in the model; no loop reads a cell before writing it. Each
  of the four loops is one function, with the loop variable and the arrays as arguments.
\<close>

function initRow :: "nat \<Rightarrow> nat \<Rightarrow> nat list \<Rightarrow> nat list" where
  \<comment> \<open>\<^verbatim>\<open>for (let j = 0; j <= n; j++) prev[j] = j\<close>\<close>
  "initRow n j prev = (if j \<le> n then initRow n (j + 1) (prev[j := j]) else prev)"
  by pat_completeness auto
termination
  by (relation "measure (\<lambda>(n, j, prev). n + 1 - j)") auto

declare initRow.simps [simp del]

function fillRow :: "string \<Rightarrow> string \<Rightarrow> nat \<Rightarrow> nat \<Rightarrow> nat list \<Rightarrow> nat list \<Rightarrow> nat list" where
  \<comment> \<open>\<^verbatim>\<open>for (let j = 1; j <= n; j++)\<close>, the body of row \<open>i\<close>\<close>
  "fillRow a b i j prev cur =
     (if j \<le> length b
      then fillRow a b i (j + 1) prev
             (cur[j := (if a ! (i - 1) = b ! (j - 1) then prev ! (j - 1)
                         else 1 + min (prev ! (j - 1)) (min (prev ! j) (cur ! (j - 1))))])
      else cur)"
  by pat_completeness auto
termination
  by (relation "measure (\<lambda>(a, b, i, j, prev, cur). length b + 1 - j)") auto

declare fillRow.simps [simp del]

function copyRow :: "nat \<Rightarrow> nat \<Rightarrow> nat list \<Rightarrow> nat list \<Rightarrow> nat list" where
  \<comment> \<open>\<^verbatim>\<open>for (let j = 0; j <= n; j++) prev[j] = cur[j]\<close>\<close>
  "copyRow n j prev cur =
     (if j \<le> n then copyRow n (j + 1) (prev[j := cur ! j]) cur else prev)"
  by pat_completeness auto
termination
  by (relation "measure (\<lambda>(n, j, prev, cur). n + 1 - j)") auto

declare copyRow.simps [simp del]

function rowLoop :: "string \<Rightarrow> string \<Rightarrow> nat \<Rightarrow> nat list \<Rightarrow> nat list \<Rightarrow> nat list" where
  \<comment> \<open>\<^verbatim>\<open>for (let i = 1; i <= m; i++)\<close>; the result is \<^verbatim>\<open>prev\<close> after the last row\<close>
  "rowLoop a b i prev cur =
     (if i \<le> length a
      then (let cur0 = cur[0 := i];
                cur1 = fillRow a b i 1 prev cur0;
                prev1 = copyRow (length b) 0 prev cur1
            in rowLoop a b (i + 1) prev1 cur1)
      else prev)"
  by pat_completeness auto
termination
  by (relation "measure (\<lambda>(a, b, i, prev, cur). length a + 1 - i)") auto

declare rowLoop.simps [simp del]

definition editDistance :: "string \<Rightarrow> string \<Rightarrow> nat" where
  "editDistance a b =
     (let n = length b;
          prev = initRow n 0 (replicate (n + 1) 0);
          cur = replicate (n + 1) 0
      in rowLoop a b 1 prev cur ! n)"

section \<open>Near-match search and the earlier search\<close>

text \<open>
  The earlier copy of \<^verbatim>\<open>matching.ts\<close> is the one with \<^verbatim>\<open>findNearMatches\<close>. Its
  \<^verbatim>\<open>findAllMatches\<close> returns exact, compound and near matches and calls its own
  \<^verbatim>\<open>calculateNiceness\<close> and \<^verbatim>\<open>findCompoundWords\<close>; these are modelled with the suffix
  \<open>_v1\<close> where the name is taken by the later copy.
\<close>

function containsLoop :: "string \<Rightarrow> string \<Rightarrow> nat \<Rightarrow> nat \<Rightarrow> nat" where
  \<comment> \<open>the loop of \<^verbatim>\<open>containsSubsequence\<close>; the result is the final \<^verbatim>\<open>ti\<close>\<close>
  "containsLoop source target si tix =
     (if si < length source \<and> tix < length target
      then (if source ! si = target ! tix
            then containsLoop source target (si + 1) (tix + 1)
            else containsLoop source target (si + 1) tix)
      else tix)"
  by pat_completeness auto
termination
  by (relation "measure (\<lambda>(source, target, si, tix). length source - si)") auto

declare containsLoop.simps [simp del]

definition containsSubsequence :: "string \<Rightarrow> string \<Rightarrow> bool" where
  "containsSubsequence source target \<longleftrightarrow> containsLoop source target 0 0 = length target"

definition charAt :: "string \<Rightarrow> nat \<Rightarrow> char option" where
  \<comment> \<open>\<^verbatim>\<open>s[i]\<close> where the index may be out of range: \<^verbatim>\<open>undefined\<close> is \<^term>\<open>None\<close>\<close>
  "charAt s i = (if i < length s then Some (s ! i) else None)"

text \<open>
  The two loops that map matched initials to the start of their title words; they share the
  cursor \<^verbatim>\<open>wi\<close>. \<^verbatim>\<open>titleInfo.words[ii]\<close> is defined when \<open>ii\<close> is in range.
\<close>

function initialInner :: "TitleInfo \<Rightarrow> string \<Rightarrow> string \<Rightarrow> nat \<Rightarrow> nat \<Rightarrow> nat list \<Rightarrow> nat \<times> nat list" where
  "initialInner ti wordLower ini ii wi matched =
     (if wi < length wordLower
      then (if wordLower ! wi = ini ! ii
            then (wi + 1, if ii < length (words ti)
                          then matched @ [startIndex (words ti ! ii)] else matched)
            else initialInner ti wordLower ini ii (wi + 1) matched)
      else (wi, matched))"
  by pat_completeness auto
termination
  by (relation "measure (\<lambda>(ti, wordLower, ini, ii, wi, matched). length wordLower - wi)") auto

declare initialInner.simps [simp del]

function initialOuter :: "TitleInfo \<Rightarrow> string \<Rightarrow> string \<Rightarrow> nat \<Rightarrow> nat \<Rightarrow> nat list \<Rightarrow> nat list" where
  "initialOuter ti wordLower ini ii wi matched =
     (if ii < length ini \<and> wi < length wordLower
      then (case initialInner ti wordLower ini ii wi matched of
              (wi', matched') \<Rightarrow> initialOuter ti wordLower ini (ii + 1) wi' matched')
      else matched)"
  by pat_completeness auto
termination
  by (relation "measure (\<lambda>(ti, wordLower, ini, ii, wi, matched). length ini - ii)") auto

declare initialOuter.simps [simp del]

definition nearMatch :: "TitleInfo \<Rightarrow> string \<Rightarrow> nat \<Rightarrow> string \<Rightarrow> nat \<Rightarrow> WordMatch option" where
  \<comment> \<open>the body of the branch that pushes a near match, for a word at distance \<open>distance\<close>\<close>
  "nearMatch ti ini maxEditDistance w distance =
     (let wordLower = toLowerCase w
      in do {
        q \<leftarrow> jsDivide (of_nat distance) (of_nat (maxEditDistance + 1));
        let closeness = 1 - q;
        let closeness1 = (if charAt wordLower 0 = charAt ini 0 then closeness + 2 / 10
                          else closeness);
        let closeness2 = (if containsSubsequence wordLower ini then closeness1 + 3 / 10
                          else closeness1);
        let score = min closeness2 1 * 50;
        let matchedInitialIndices = initialOuter ti wordLower ini 0 0 [];
        Some \<lparr>mword = w, indices = matchedInitialIndices, niceness = round2 score,
               mtype = Near, components = None, editDist = Some distance\<rparr>
      })"

fun nearLoop :: "TitleInfo \<Rightarrow> string \<Rightarrow> nat \<Rightarrow> nat \<Rightarrow> nat \<Rightarrow> nat \<Rightarrow> string list \<Rightarrow> WordMatch list \<Rightarrow>
    WordMatch list option" where
  "nearLoop ti ini minLen maxLen maxEditDistance maxResults [] results = Some results"
| "nearLoop ti ini minLen maxLen maxEditDistance maxResults (w # ws) results =
     (if length w < minLen \<or> length w > maxLen
      then nearLoop ti ini minLen maxLen maxEditDistance maxResults ws results
      else let wordLower = toLowerCase w;
               distance = editDistance wordLower ini
           in if distance > 0 \<and> distance \<le> maxEditDistance
              then (case findWordInTitle ti w of
                      Some exactIndices \<Rightarrow>
                        nearLoop ti ini minLen maxLen maxEditDistance maxResults ws results
                    | None \<Rightarrow>
                        do {
                          m \<leftarrow> nearMatch ti ini maxEditDistance w distance;
                          let results' = results @ [m];
                          if length results' \<ge> maxResults * 2 then Some results'
                          else nearLoop ti ini minLen maxLen maxEditDistance maxResults ws results'
                        })
              else if length results \<ge> maxResults * 2 then Some results
              else nearLoop ti ini minLen maxLen maxEditDistance maxResults ws results)"

definition compareNiceness :: "WordMatch \<Rightarrow> WordMatch \<Rightarrow> rat" where
  \<comment> \<open>\<^verbatim>\<open>(a, b) => b.niceness - a.niceness\<close>\<close>
  "compareNiceness a b = niceness b - niceness a"

definition findNearMatches :: "TitleInfo \<Rightarrow> string list \<Rightarrow> nat \<Rightarrow> nat \<Rightarrow> WordMatch list option" where
  "findNearMatches ti allWords maxEditDistance maxResults =
     (let ini = toLowerCase (initials ti)
      in if length ini < 2 then Some []
         else let minLen = max 2 (length ini - maxEditDistance);
                  maxLen = length ini + maxEditDistance + 2
              in do {
                   results \<leftarrow> nearLoop ti ini minLen maxLen maxEditDistance maxResults allWords [];
                   Some (take maxResults (jsSort compareNiceness results))
                 })"

text \<open>
  \<^verbatim>\<open>calculateNiceness\<close> of the earlier copy: no first-letter bonus, no filter on the letter
  indices, and no guard on any divisor.
\<close>

fun startLetterInner_v1 :: "TitleWord list \<Rightarrow> int \<Rightarrow> rat \<Rightarrow> rat option" where
  "startLetterInner_v1 [] letterIdx startLetterScore = Some startLetterScore"
| "startLetterInner_v1 (tw # tws) letterIdx startLetterScore =
     (if inWord tw letterIdx
      then (let posInWord = letterIdx - int (letterStartIndex tw);
                wordLength = int (letterEndIndex tw) - int (letterStartIndex tw)
            in do {
              q \<leftarrow> jsDivide (of_int posInWord) (of_int wordLength);
              Some (startLetterScore + (1 - q))
            })
      else startLetterInner_v1 tws letterIdx startLetterScore)"

fun startLetterLoop_v1 :: "TitleInfo \<Rightarrow> int list \<Rightarrow> rat \<Rightarrow> rat option" where
  "startLetterLoop_v1 ti [] startLetterScore = Some startLetterScore"
| "startLetterLoop_v1 ti (letterIdx # rest) startLetterScore =
     do {
       s \<leftarrow> startLetterInner_v1 (words ti) letterIdx startLetterScore;
       startLetterLoop_v1 ti rest s
     }"

definition calculateNiceness_v1 :: "TitleInfo \<Rightarrow> string \<Rightarrow> nat list \<Rightarrow> rat option" where
  "calculateNiceness_v1 ti w idxs =
     (let wordLen = length w;
          letterIndices = map (indexOf (letterPositions ti)) idxs;
          wordsUsed = wordsUsedLoop ti letterIndices []
      in do {
        wordCoverage \<leftarrow> jsDivide (of_nat (length wordsUsed)) (of_nat (length (words ti)));
        startLetterScore \<leftarrow> startLetterLoop_v1 ti letterIndices 0;
        q \<leftarrow> jsDivide startLetterScore (of_nat wordLen);
        let wordLower = toLowerCase w;
        let initialsMatched = initialsLoop wordLower (initials ti) 0 0;
        ini \<leftarrow> (if initialsMatched > 0
                 then do {
                   r \<leftarrow> jsDivide (of_nat initialsMatched) (of_nat (length (initials ti)));
                   Some (r * 20)
                 }
                 else Some 0);
        Some (round2 (wordCoverage * 40 + q * 30 + ini + lengthBonus wordLen))
      })"

text \<open>
  \<^verbatim>\<open>findCompoundWords\<close> of the earlier copy: dictionary words that split into two dictionary
  words. The loop over \<^verbatim>\<open>splitPoint\<close> runs while
  \<^verbatim>\<open>splitPoint <= word.length - minComponentLength\<close>; it is entered only for words of at
  least twice \<^verbatim>\<open>minComponentLength\<close> characters.
\<close>

function splitLoop :: "TitleInfo \<Rightarrow> string set \<Rightarrow> nat \<Rightarrow> string \<Rightarrow> nat list \<Rightarrow> nat \<Rightarrow>
    string set \<times> WordMatch list \<Rightarrow> (string set \<times> WordMatch list) option" where
  "splitLoop ti wordSet minComponentLength w idxs splitPoint (seen, results) =
     (if int splitPoint \<le> int (length w) - int minComponentLength
      then (let part1 = take splitPoint w;
                part2 = drop splitPoint w
            in if part1 \<in> wordSet \<and> part2 \<in> wordSet
               then (if w \<in> seen
                     then splitLoop ti wordSet minComponentLength w idxs (splitPoint + 1)
                            (seen, results)
                     else do {
                       n \<leftarrow> calculateNiceness_v1 ti w idxs;
                       Some (insert w seen,
                             results @ [\<lparr>mword = w, indices = idxs, niceness = n * (8 / 10),
                                          mtype = Compound, components = Some [part1, part2],
                                          editDist = None\<rparr>])
                     })
               else splitLoop ti wordSet minComponentLength w idxs (splitPoint + 1)
                      (seen, results))
      else Some (seen, results))"
  by pat_completeness auto
termination
  by (relation "measure (\<lambda>(ti, ws, mc, w, idxs, sp, st). length w + 1 - sp)") auto

declare splitLoop.simps [simp del]

fun compoundWordsLoop :: "TitleInfo \<Rightarrow> string set \<Rightarrow> nat \<Rightarrow> nat \<Rightarrow> string list \<Rightarrow>
    string set \<times> WordMatch list \<Rightarrow> WordMatch list option" where
  "compoundWordsLoop ti wordSet minComponentLength maxResults [] (seen, results) = Some results"
| "compoundWordsLoop ti wordSet minComponentLength maxResults (w # ws) (seen, results) =
     (if length w < minComponentLength * 2
      then compoundWordsLoop ti wordSet minComponentLength maxResults ws (seen, results)
      else if length w > length (letters ti)
      then compoundWordsLoop ti wordSet minComponentLength maxResults ws (seen, results)
      else case findWordInTitle ti w of
             None \<Rightarrow> compoundWordsLoop ti wordSet minComponentLength maxResults ws (seen, results)
           | Some idxs \<Rightarrow>
               (case splitLoop ti wordSet minComponentLength w idxs minComponentLength
                       (seen, results) of
                  None \<Rightarrow> None
                | Some (seen', results') \<Rightarrow>
                    if length results' \<ge> maxResults then Some results'
                    else compoundWordsLoop ti wordSet minComponentLength maxResults ws
                           (seen', results')))"

definition findCompoundWords :: "TitleInfo \<Rightarrow> string set \<Rightarrow> string list \<Rightarrow> nat \<Rightarrow> nat \<Rightarrow>
    WordMatch list option" where
  "findCompoundWords ti wordSet allWords minComponentLength maxResults =
     do {
       results \<leftarrow> compoundWordsLoop ti wordSet minComponentLength maxResults allWords ({}, []);
       Some (jsSort compareNiceness results)
     }"

text \<open>
  \<^verbatim>\<open>findAllMatches\<close> of the earlier copy; the result is the triple of \<^verbatim>\<open>exact\<close>,
  \<^verbatim>\<open>compound\<close> and \<^verbatim>\<open>near\<close>.
\<close>

definition findAllMatches_v1 :: "TitleInfo \<Rightarrow> string list \<Rightarrow> string set \<Rightarrow> nat \<Rightarrow> nat \<Rightarrow> string \<Rightarrow>
    bool \<Rightarrow> bool \<Rightarrow> (WordMatch list \<times> WordMatch list \<times> WordMatch list) option" where
  "findAllMatches_v1 ti allWords wordSet minLength maxResults searchTerm includeCompounds
       includeNearMatches =
     (let searchLower = toLowerCase searchTerm
      in do {
        exactMatches \<leftarrow>
          exactLoop calculateNiceness_v1 ti minLength (searchTerm \<noteq> []) searchLower allWords [];
        let sorted = jsSort compareMatches exactMatches;
        let exact = take maxResults sorted;
        let exactWordSet = set (map mword exact);
        compound \<leftarrow>
          (if includeCompounds
           then do {
                  allCompounds \<leftarrow> findCompoundWords ti wordSet allWords 3 maxResults;
                  Some (take (maxResults div 2)
                          (filter (\<lambda>c. mword c \<notin> exactWordSet) allCompounds))
                }
           else Some []);
        near \<leftarrow>
          (if includeNearMatches then findNearMatches ti allWords 2 (maxResults div 2)
           else Some []);
        Some (exact, compound, near)
      })"

section \<open>Specification predicates\<close>

text \<open>
  The data-model invariant of a \<^verbatim>\<open>TitleInfo\<close>: \<^verbatim>\<open>letterPositions\<close> is as long as
  \<^verbatim>\<open>letters\<close>, strictly increasing, and \<^verbatim>\<open>letterPositions[i]\<close> is the place in
  \<^verbatim>\<open>original\<close> that \<^verbatim>\<open>letters[i]\<close> was read from; every title word's half-open range
  has the word's length; successive ranges do not overlap; the ranges lie in \<^verbatim>\<open>letters\<close>,
  hold the word's characters, and every position of \<^verbatim>\<open>letters\<close> is in one of them;
  \<^verbatim>\<open>initials\<close> has one character per title word.
\<close>

definition titleInfoInvariant :: "TitleInfo \<Rightarrow> bool" where
  "titleInfoInvariant ti \<longleftrightarrow>
     length (letterPositions ti) = length (letters ti) \<and>
     sorted_wrt (<) (letterPositions ti) \<and>
     (\<forall>i < length (letters ti).
        letterPositions ti ! i < length (original ti) \<and>
        letters ti ! i = toLowerChar (original ti ! (letterPositions ti ! i))) \<and>
     (\<forall>tw \<in> set (words ti).
        letterStartIndex tw \<le> letterEndIndex tw \<and>
        letterEndIndex tw - letterStartIndex tw = length (word tw)) \<and>
     (\<forall>k. Suc k < length (words ti) \<longrightarrow>
        letterEndIndex (words ti ! k) \<le> letterStartIndex (words ti ! Suc k)) \<and>
     (\<forall>tw \<in> set (words ti).
        letterEndIndex tw \<le> length (letters ti) \<and>
        word tw = take (length (word tw)) (drop (letterStartIndex tw) (letters ti))) \<and>
     (\<forall>i < length (letters ti).
        \<exists>tw \<in> set (words ti). letterStartIndex tw \<le> i \<and> i < letterEndIndex tw) \<and>
     length (initials ti) = length (words ti)"

text \<open>
  An occurrence of the characters \<open>cs\<close> as a subsequence of \<open>ls\<close> at the strictly
  increasing positions \<open>ks\<close>, none of them before \<open>i\<close>.
\<close>

definition embedsAt :: "string \<Rightarrow> nat \<Rightarrow> string \<Rightarrow> nat list \<Rightarrow> bool" where
  "embedsAt ls i cs ks \<longleftrightarrow>
     length ks = length cs \<and> sorted_wrt (<) ks \<and>
     (\<forall>k \<in> set ks. i \<le> k \<and> k < length ls) \<and> map (\<lambda>k. ls ! k) ks = cs"

text \<open>
  The niceness score in the words of the specification, over the matched letter positions
  \<open>js\<close>: a position touches a title word when it lies in the word's range, and the title
  word at a position is the one it touches.
\<close>

definition touches :: "TitleWord \<Rightarrow> nat \<Rightarrow> bool" where
  "touches tw j \<longleftrightarrow> letterStartIndex tw \<le> j \<and> j < letterEndIndex tw"



text \<open>Pairwise disjoint ranges, in list order.\<close>

definition separated :: "TitleWord list \<Rightarrow> bool" where
  "separated tws \<longleftrightarrow>
     (\<forall>k l. k < l \<and> l < length tws \<longrightarrow> letterEndIndex (tws ! k) \<le> letterStartIndex (tws ! l))"




text \<open>
  What the scan of the dictionary keeps, and the match it records for a kept word.
\<close>

definition exactCandidate :: "TitleInfo \<Rightarrow> nat \<Rightarrow> bool \<Rightarrow> string \<Rightarrow> string \<Rightarrow> bool" where
  "exactCandidate ti minLength active searchLower w \<longleftrightarrow>
     minLength \<le> length w \<and> length w \<le> length (letters ti) \<and>
     (active \<longrightarrow> stringIncludes w searchLower) \<and> findWordInTitle ti w \<noteq> None"

definition exactMatchOf :: "TitleInfo \<Rightarrow> string \<Rightarrow> WordMatch" where
  "exactMatchOf ti w =
     \<lparr>mword = w, indices = the (findWordInTitle ti w),
      niceness = the (calculateNiceness ti w (the (findWordInTitle ti w))),
      mtype = Exact, components = None, editDist = None\<rparr>"

text \<open>
  A fabricated compound: its word is not in the membership set, its indices are those of the
  subsequence matcher, and its niceness is nine tenths of the score of the combined word,
  rounded to two decimals.
\<close>

definition fabricated :: "TitleInfo \<Rightarrow> string set \<Rightarrow> WordMatch \<Rightarrow> bool" where
  "fabricated ti wordSet m \<longleftrightarrow>
     mtype m = Compound \<and> mword m \<notin> wordSet \<and>
     findWordInTitle ti (mword m) = Some (indices m) \<and>
     (\<exists>n. calculateNiceness ti (mword m) (indices m) = Some n \<and>
          niceness m = round2 (n * (9 / 10)))"

text \<open>
  The table that the rows go through: entry \<open>i\<close>, \<open>j\<close> relates the first \<open>i\<close>
  characters of \<open>a\<close> to the first \<open>j\<close> characters of \<open>b\<close>.
\<close>

fun distTable :: "string \<Rightarrow> string \<Rightarrow> nat \<Rightarrow> nat \<Rightarrow> nat" where
  "distTable a b 0 j = j"
| "distTable a b (Suc i) 0 = Suc i"
| "distTable a b (Suc i) (Suc j) =
     (if a ! i = b ! j then distTable a b i j
      else 1 + min (distTable a b i j) (min (distTable a b i (Suc j)) (distTable a b (Suc i) j)))"

text \<open>
  A near match for a title: its recorded edit distance is the distance of the lowercased word
  to the lowercased initials, between 1 and the bound, and the word is not a subsequence
  match of the title.
\<close>

definition isNearMatch :: "TitleInfo \<Rightarrow> nat \<Rightarrow> WordMatch \<Rightarrow> bool" where
  "isNearMatch ti maxEditDistance m \<longleftrightarrow>
     mtype m = Near \<and>
     editDist m = Some (editDistance (toLowerCase (mword m)) (toLowerCase (initials ti))) \<and>
     1 \<le> editDistance (toLowerCase (mword m)) (toLowerCase (initials ti)) \<and>
     editDistance (toLowerCase (mword m)) (toLowerCase (initials ti)) \<le> maxEditDistance \<and>
     findWordInTitle ti (mword m) = None"

section \<open>Verification: title analyzer\<close>

text \<open>The letter positions of a title from index \<open>i\<close> on, and a chain of title words whose
  letter ranges follow each other from \<open>a\<close> to \<open>b\<close>: what the two loops compute.\<close>

definition letterIdxs :: "string \<Rightarrow> nat \<Rightarrow> nat list" where
  "letterIdxs title i = filter (\<lambda>k. isAsciiLetter (title ! k)) [i..<length title]"

fun chained :: "nat \<Rightarrow> TitleWord list \<Rightarrow> nat \<Rightarrow> bool" where
  "chained a [] b = (a = b)"
| "chained a (tw # tws) b =
     (letterStartIndex tw = a \<and> letterEndIndex tw = a + length (word tw) \<and> word tw \<noteq> [] \<and>
      chained (letterEndIndex tw) tws b)"

lemma letterLoop_eq:
  "letterLoop title i (lps, ls) =
     (lps @ letterIdxs title i, ls @ map (\<lambda>k. toLowerChar (title ! k)) (letterIdxs title i))"
proof (induction title i "(lps, ls)" arbitrary: lps ls rule: letterLoop.induct)
  case (1 title i lps ls)
  show ?case
  proof (cases "i < length title")
    case False
    then show ?thesis by (simp add: letterLoop.simps letterIdxs_def)
  next
    case True
    then have u: "[i..<length title] = i # [i + 1..<length title]"
      by (simp add: upt_conv_Cons)
    show ?thesis
    proof (cases "isAsciiLetter (title ! i)")
      case l: True
      from "1.hyps"(1) [OF True l] True l show ?thesis
        by (subst letterLoop.simps) (simp add: letterIdxs_def u)
    next
      case l: False
      from "1.hyps"(2) [OF True l] True l show ?thesis
        by (subst letterLoop.simps) (simp add: letterIdxs_def u)
    qed
  qed
qed

lemma letterIdxs_sorted: "sorted_wrt (<) (letterIdxs title i)"
  unfolding letterIdxs_def by (rule sorted_wrt_filter) (simp add: sorted_wrt_upt)

lemma letterIdxs_bound: "k \<in> set (letterIdxs title i) \<Longrightarrow> k < length title \<and> isAsciiLetter (title ! k)"
  by (simp add: letterIdxs_def)

lemma letterIdxs_letters:
  "map (\<lambda>k. title ! k) (letterIdxs title 0) = filter isAsciiLetter title"
proof -
  have "map (\<lambda>k. title ! k) (filter (\<lambda>k. isAsciiLetter (title ! k)) [0..<length title])
        = filter isAsciiLetter (map (\<lambda>k. title ! k) [0..<length title])"
    by (simp add: filter_map comp_def)
  then show ?thesis by (simp add: letterIdxs_def map_nth)
qed

lemma analyze_letterPositions: "letterPositions (analyzeTitleTitle title) = letterIdxs title 0"
  by (simp add: analyzeTitleTitle_def letterLoop_eq Let_def)

lemma analyze_letters:
  "letters (analyzeTitleTitle title) = map (\<lambda>k. toLowerChar (title ! k)) (letterIdxs title 0)"
  by (simp add: analyzeTitleTitle_def letterLoop_eq Let_def)

lemma analyze_letters_filter:
  "letters (analyzeTitleTitle title) = map toLowerChar (filter isAsciiLetter title)"
proof -
  have "map (\<lambda>k. toLowerChar (title ! k)) (letterIdxs title 0)
        = map toLowerChar (map (\<lambda>k. title ! k) (letterIdxs title 0))" by simp
  then show ?thesis by (simp only: analyze_letters letterIdxs_letters)
qed

lemma analyze_words: "words (analyzeTitleTitle title) = execLoop title 0 0 []"
  by (simp add: analyzeTitleTitle_def Let_def split: prod.splits)

lemma analyze_initials:
  "initials (analyzeTitleTitle title) = concat (map (\<lambda>w. take 1 (word w)) (execLoop title 0 0 []))"
  by (simp add: analyzeTitleTitle_def Let_def split: prod.splits)

lemma regexExec_None: "regexExec title i = None \<Longrightarrow> filter isAsciiLetter (drop i title) = []"
proof (induction title i rule: regexExec.induct)
  case (1 title i)
  show ?case
  proof (cases "i < length title")
    case False then show ?thesis by simp
  next
    case True
    with "1.prems" have nl: "\<not> isAsciiLetter (title ! i)"
      by (subst (asm) regexExec.simps) (auto split: if_splits)
    with True "1.prems" have "regexExec title (i + 1) = None"
      by (subst (asm) regexExec.simps) simp
    from "1.IH" [OF True nl this] nl True show ?thesis
      by (simp add: Cons_nth_drop_Suc [symmetric])
  qed
qed

lemma regexExec_Some:
  "regexExec title i = Some (k, m) \<Longrightarrow>
     m = takeWhile isAsciiLetter (drop k title) \<and>
     filter isAsciiLetter (drop i title) = m @ filter isAsciiLetter (drop (k + length m) title)"
proof (induction title i rule: regexExec.induct)
  case (1 title i)
  from "1.prems" have inb: "i < length title"
    by (subst (asm) regexExec.simps) (auto split: if_splits)
  show ?case
  proof (cases "isAsciiLetter (title ! i)")
    case True
    with inb "1.prems" have k: "k = i" and m: "m = takeWhile isAsciiLetter (drop i title)"
      by (subst (asm) regexExec.simps, simp)+
    have "drop i title = takeWhile isAsciiLetter (drop i title) @ dropWhile isAsciiLetter (drop i title)"
      by simp
    then have "filter isAsciiLetter (drop i title)
        = filter isAsciiLetter (takeWhile isAsciiLetter (drop i title))
          @ filter isAsciiLetter (dropWhile isAsciiLetter (drop i title))"
      by (metis filter_append)
    moreover have "filter isAsciiLetter (takeWhile isAsciiLetter (drop i title)) = m"
      unfolding m by (simp add: filter_id_conv) (meson set_takeWhileD)
    moreover have "dropWhile isAsciiLetter (drop i title) = drop (i + length m) title"
      unfolding m by (simp add: dropWhile_eq_drop add.commute)
    ultimately show ?thesis using k m by simp
  next
    case False
    with inb "1.prems" have "regexExec title (i + 1) = Some (k, m)"
      by (subst (asm) regexExec.simps) simp
    from "1.IH" [OF inb False this] False inb show ?thesis
      by (simp add: Cons_nth_drop_Suc [symmetric])
  qed
qed

lemma execLoop_step:
  assumes "regexExec title i = Some (k, m)"
  shows "execLoop title i li ws
         = execLoop title (k + length m) (li + length m)
             (ws @ [\<lparr>word = toLowerCase m, startIndex = k, letterStartIndex = li,
                     letterEndIndex = li + length m\<rparr>])"
  using assms by (subst execLoop.simps) (simp add: Let_def toLowerCase_def)

lemma execLoop_stop: "regexExec title i = None \<Longrightarrow> execLoop title i li ws = ws"
  by (subst execLoop.simps) simp

lemma execLoop_acc: "execLoop title i li ws = ws @ execLoop title i li []"
proof (induction "length title - i" arbitrary: i li ws rule: less_induct)
  case less
  show ?case
  proof (cases "regexExec title i")
    case None
    then show ?thesis by (simp add: execLoop_stop)
  next
    case (Some p)
    obtain k m where p: "p = (k, m)" by (cases p)
    with Some have r: "regexExec title i = Some (k, m)" by simp
    from regexExec_bounds [OF r] have d: "length title - (k + length m) < length title - i"
      by (cases m) auto
    let ?tw = "\<lparr>word = toLowerCase m, startIndex = k, letterStartIndex = li,
                 letterEndIndex = li + length m\<rparr>"
    have "execLoop title i li ws = (ws @ [?tw]) @ execLoop title (k + length m) (li + length m) []"
      using less [OF d, of "li + length m" "ws @ [?tw]"] by (simp add: execLoop_step [OF r])
    moreover have "execLoop title i li [] = [?tw] @ execLoop title (k + length m) (li + length m) []"
      using less [OF d, of "li + length m" "[?tw]"] by (simp add: execLoop_step [OF r])
    ultimately show ?thesis by simp
  qed
qed

lemma execLoop_unfold:
  "regexExec title i = Some (k, m) \<Longrightarrow>
   execLoop title i li [] =
     \<lparr>word = toLowerCase m, startIndex = k, letterStartIndex = li, letterEndIndex = li + length m\<rparr>
       # execLoop title (k + length m) (li + length m) []"
  by (subst execLoop_step, assumption, subst execLoop_acc, simp)

lemma execLoop_chained:
  "chained li (execLoop title i li []) (li + length (filter isAsciiLetter (drop i title))) \<and>
   concat (map word (execLoop title i li [])) = map toLowerChar (filter isAsciiLetter (drop i title))"
proof (induction "length title - i" arbitrary: i li rule: less_induct)
  case less
  show ?case
  proof (cases "regexExec title i")
    case None
    then show ?thesis by (simp add: execLoop_stop regexExec_None)
  next
    case (Some p)
    obtain k m where p: "p = (k, m)" by (cases p)
    with Some have r: "regexExec title i = Some (k, m)" by simp
    from regexExec_bounds [OF r] have d: "length title - (k + length m) < length title - i"
      and ne: "m \<noteq> []"
      by (cases m; auto)+
    from regexExec_Some [OF r]
    have f: "filter isAsciiLetter (drop i title) = m @ filter isAsciiLetter (drop (k + length m) title)"
      by simp
    from less [OF d, of "li + length m"] ne show ?thesis
      by (simp add: execLoop_unfold [OF r] f toLowerCase_def add.assoc)
  qed
qed

lemma chained_props:
  "chained a tws b \<Longrightarrow>
     a \<le> b \<and> b = a + length (concat (map word tws)) \<and>
     (\<forall>tw \<in> set tws. a \<le> letterStartIndex tw \<and> letterEndIndex tw \<le> b \<and>
         letterEndIndex tw = letterStartIndex tw + length (word tw) \<and> word tw \<noteq> [] \<and>
         word tw = take (length (word tw)) (drop (letterStartIndex tw - a) (concat (map word tws)))) \<and>
     (\<forall>k. Suc k < length tws \<longrightarrow> letterEndIndex (tws ! k) = letterStartIndex (tws ! Suc k)) \<and>
     (\<forall>i. a \<le> i \<and> i < b \<longrightarrow> (\<exists>tw \<in> set tws. letterStartIndex tw \<le> i \<and> i < letterEndIndex tw))"
proof (induction tws arbitrary: a)
  case Nil
  then show ?case by simp
next
  case (Cons tw tws)
  from Cons.prems have s: "letterStartIndex tw = a" and e: "letterEndIndex tw = a + length (word tw)"
    and ne: "word tw \<noteq> []" and c: "chained (a + length (word tw)) tws b"
    by auto
  note ih = Cons.IH [OF c]
  show ?case
  proof (intro conjI allI impI ballI)
    show "a \<le> b" using ih by simp
    show "b = a + length (concat (map word (tw # tws)))" using ih by simp
  next
    fix x assume x: "x \<in> set (tw # tws)"
    show "a \<le> letterStartIndex x" using x ih s by auto
    show "letterEndIndex x \<le> b" using x ih s e by auto
    show "letterEndIndex x = letterStartIndex x + length (word x)" using x ih e s by auto
    show "word x \<noteq> []" using x ih ne by auto
    show "word x = take (length (word x)) (drop (letterStartIndex x - a) (concat (map word (tw # tws))))"
    proof (cases "x = tw")
      case True
      then show ?thesis using s by simp
    next
      case False
      with x have xin: "x \<in> set tws" by simp
      with ih have g: "a + length (word tw) \<le> letterStartIndex x"
        and w: "word x = take (length (word x))
                   (drop (letterStartIndex x - (a + length (word tw))) (concat (map word tws)))"
        by auto
      from g have "letterStartIndex x - a = length (word tw) + (letterStartIndex x - (a + length (word tw)))"
        by simp
      then show ?thesis using w by simp
    qed
  next
    fix k assume k: "Suc k < length (tw # tws)"
    show "letterEndIndex ((tw # tws) ! k) = letterStartIndex ((tw # tws) ! Suc k)"
    proof (cases k)
      case 0
      with k obtain y ys where t: "tws = y # ys" by (cases tws) auto
      with c have "letterStartIndex y = a + length (word tw)" by simp
      with 0 t e show ?thesis by simp
    next
      case (Suc j)
      with k have "Suc j < length tws" by simp
      with ih have "letterEndIndex (tws ! j) = letterStartIndex (tws ! Suc j)" by blast
      with Suc show ?thesis by simp
    qed
  next
    fix i assume i: "a \<le> i \<and> i < b"
    show "\<exists>x \<in> set (tw # tws). letterStartIndex x \<le> i \<and> i < letterEndIndex x"
    proof (cases "i < a + length (word tw)")
      case True
      with i s e show ?thesis by auto
    next
      case False
      with i ih show ?thesis by force
    qed
  qed
qed

lemma length_initials_aux:
  "\<forall>tw \<in> set tws. word tw \<noteq> [] \<Longrightarrow>
     length (concat (map (\<lambda>w. take 1 (word w)) tws)) = length tws"
proof (induction tws)
  case Nil
  show ?case by simp
next
  case (Cons tw tws)
  then have "length (take 1 (word tw)) = 1" by (cases "word tw") auto
  with Cons show ?case by simp
qed

lemma analyzeTitleTitle_invariant: "titleInfoInvariant (analyzeTitleTitle title)"
proof -
  let ?ti = "analyzeTitleTitle title"
  have orig: "original ?ti = title"
    by (simp add: analyzeTitleTitle_def Let_def split: prod.splits)
  have ch: "chained 0 (words ?ti) (length (letters ?ti))"
    and cc: "concat (map word (words ?ti)) = letters ?ti"
    using execLoop_chained [of 0 title 0]
    by (simp_all add: analyze_words analyze_letters_filter)
  note cp = chained_props [OF ch, unfolded cc]
  have 1: "length (letterPositions ?ti) = length (letters ?ti)"
    by (simp add: analyze_letterPositions analyze_letters)
  have 2: "sorted_wrt (<) (letterPositions ?ti)"
    by (simp add: analyze_letterPositions letterIdxs_sorted)
  have 3: "\<forall>i < length (letters ?ti).
        letterPositions ?ti ! i < length (original ?ti) \<and>
        letters ?ti ! i = toLowerChar (original ?ti ! (letterPositions ?ti ! i))"
    using letterIdxs_bound [of _ title 0]
    by (simp add: orig analyze_letterPositions analyze_letters)
  have 4: "\<forall>tw \<in> set (words ?ti).
        letterStartIndex tw \<le> letterEndIndex tw \<and>
        letterEndIndex tw - letterStartIndex tw = length (word tw)"
    using cp by auto
  have 5: "\<forall>k. Suc k < length (words ?ti) \<longrightarrow>
        letterEndIndex (words ?ti ! k) \<le> letterStartIndex (words ?ti ! Suc k)"
  proof (intro allI impI)
    fix k assume "Suc k < length (words ?ti)"
    with cp have "letterEndIndex (words ?ti ! k) = letterStartIndex (words ?ti ! Suc k)"
      by blast
    then show "letterEndIndex (words ?ti ! k) \<le> letterStartIndex (words ?ti ! Suc k)"
      by (rule eq_imp_le)
  qed
  have 6: "\<forall>tw \<in> set (words ?ti).
        letterEndIndex tw \<le> length (letters ?ti) \<and>
        word tw = take (length (word tw)) (drop (letterStartIndex tw) (letters ?ti))"
    using cp by auto
  have 7: "\<forall>i < length (letters ?ti).
        \<exists>tw \<in> set (words ?ti). letterStartIndex tw \<le> i \<and> i < letterEndIndex tw"
    using cp by blast
  have 8: "length (initials ?ti) = length (words ?ti)"
    unfolding analyze_initials analyze_words [symmetric]
    by (rule length_initials_aux) (use cp in blast)
  show ?thesis
    unfolding titleInfoInvariant_def using 1 2 3 4 5 6 7 8 by blast
qed

section \<open>Verification: subsequence matcher\<close>

lemma findLoop_subseq:
  "(\<exists>r. findLoop ti i cs acc = Some r) \<longleftrightarrow> subseq cs (drop i (letters ti))"
proof (induction ti i cs acc rule: findLoop.induct)
  case (1 ti titleIdx idxs)
  show ?case by (simp add: findLoop.simps)
next
  case (2 ti titleIdx c cs idxs)
  show ?case
  proof (cases "titleIdx < length (letters ti)")
    case False
    then show ?thesis by (simp add: findLoop.simps)
  next
    case True
    then have d: "drop titleIdx (letters ti)
                  = letters ti ! titleIdx # drop (titleIdx + 1) (letters ti)"
      by (simp add: Cons_nth_drop_Suc)
    show ?thesis
    proof (cases "letters ti ! titleIdx = c")
      case e: True
      from "2.IH"(1) [OF True e] True e show ?thesis
        by (subst findLoop.simps, subst d) simp
    next
      case e: False
      then have e': "c \<noteq> letters ti ! titleIdx" by blast
      from "2.IH"(2) [OF True e] True e e' show ?thesis
        by (subst findLoop.simps, subst d) simp
    qed
  qed
qed

lemma findLoop_greedy:
  "findLoop ti i cs acc = Some r \<Longrightarrow>
     \<exists>js. r = acc @ map (\<lambda>j. letterPositions ti ! j) js \<and> embedsAt (letters ti) i cs js \<and>
          (\<forall>ks. embedsAt (letters ti) i cs ks \<longrightarrow> list_all2 (\<le>) js ks)"
proof (induction ti i cs acc arbitrary: r rule: findLoop.induct)
  case (1 ti titleIdx idxs)
  then show ?case by (simp add: findLoop.simps embedsAt_def)
next
  case (2 ti titleIdx c cs idxs)
  from "2.prems" have inb: "titleIdx < length (letters ti)"
    by (subst (asm) findLoop.simps) (auto split: if_splits)
  show ?case
  proof (cases "letters ti ! titleIdx = c")
    case e: True
    with inb "2.prems"
    have "findLoop ti (titleIdx + 1) cs (idxs @ [letterPositions ti ! titleIdx]) = Some r"
      by (subst (asm) findLoop.simps) simp
    from "2.IH"(1) [OF inb e this] obtain js where
      r: "r = (idxs @ [letterPositions ti ! titleIdx]) @ map (\<lambda>j. letterPositions ti ! j) js"
      and em: "embedsAt (letters ti) (titleIdx + 1) cs js"
      and mn: "\<forall>ks. embedsAt (letters ti) (titleIdx + 1) cs ks \<longrightarrow> list_all2 (\<le>) js ks"
      by blast
    have "embedsAt (letters ti) titleIdx (c # cs) (titleIdx # js)"
      using em e inb by (fastforce simp: embedsAt_def)
    moreover have "\<forall>ks. embedsAt (letters ti) titleIdx (c # cs) ks
                     \<longrightarrow> list_all2 (\<le>) (titleIdx # js) ks"
    proof (intro allI impI)
      fix ks assume a: "embedsAt (letters ti) titleIdx (c # cs) ks"
      then obtain k0 ks' where ks: "ks = k0 # ks'" by (cases ks) (auto simp: embedsAt_def)
      from a ks have "embedsAt (letters ti) (titleIdx + 1) cs ks'" and "titleIdx \<le> k0"
        by (fastforce simp: embedsAt_def)+
      with mn ks show "list_all2 (\<le>) (titleIdx # js) ks" by simp
    qed
    ultimately show ?thesis using r by (intro exI [of _ "titleIdx # js"]) simp
  next
    case e: False
    with inb "2.prems" have "findLoop ti (titleIdx + 1) (c # cs) idxs = Some r"
      by (subst (asm) findLoop.simps) simp
    from "2.IH"(2) [OF inb e this] obtain js where
      r: "r = idxs @ map (\<lambda>j. letterPositions ti ! j) js"
      and em: "embedsAt (letters ti) (titleIdx + 1) (c # cs) js"
      and mn: "\<forall>ks. embedsAt (letters ti) (titleIdx + 1) (c # cs) ks \<longrightarrow> list_all2 (\<le>) js ks"
      by blast
    have "embedsAt (letters ti) titleIdx (c # cs) js"
      using em by (fastforce simp: embedsAt_def)
    moreover have "\<forall>ks. embedsAt (letters ti) titleIdx (c # cs) ks \<longrightarrow> list_all2 (\<le>) js ks"
    proof (intro allI impI)
      fix ks assume a: "embedsAt (letters ti) titleIdx (c # cs) ks"
      then obtain k0 ks' where ks: "ks = k0 # ks'" by (cases ks) (auto simp: embedsAt_def)
      from a ks have "letters ti ! k0 = c" "titleIdx \<le> k0" by (auto simp: embedsAt_def)
      with e have "titleIdx + 1 \<le> k0" by (cases "k0 = titleIdx") auto
      with a ks have "embedsAt (letters ti) (titleIdx + 1) (c # cs) ks"
        by (fastforce simp: embedsAt_def)
      with mn show "list_all2 (\<le>) js ks" by simp
    qed
    ultimately show ?thesis using r by auto
  qed
qed

lemma length_toLowerCase [simp]: "length (toLowerCase w) = length w"
  by (simp add: toLowerCase_def)

lemma findWordInTitle_subseq:
  "(\<exists>r. findWordInTitle ti w = Some r) \<longleftrightarrow> subseq (toLowerCase w) (letters ti)"
proof (cases "length (letters ti) < length w")
  case True
  then have "\<not> subseq (toLowerCase w) (letters ti)"
    using list_emb_length [of "(=)" "toLowerCase w" "letters ti"] by auto
  with True show ?thesis by (simp add: findWordInTitle_def)
next
  case False
  then show ?thesis
    using findLoop_subseq [of ti 0 "toLowerCase w" "[]"] by (simp add: findWordInTitle_def)
qed

lemma findWordInTitle_greedy:
  assumes "findWordInTitle ti w = Some r"
  shows "\<exists>js. r = map (\<lambda>j. letterPositions ti ! j) js \<and>
           embedsAt (letters ti) 0 (toLowerCase w) js \<and>
           (\<forall>ks. embedsAt (letters ti) 0 (toLowerCase w) ks \<longrightarrow> list_all2 (\<le>) js ks)"
proof -
  from assms have "findLoop ti 0 (toLowerCase w) [] = Some r"
    by (simp add: findWordInTitle_def split: if_splits)
  from findLoop_greedy [OF this] show ?thesis by simp
qed

lemma sorted_wrt_map_nth:
  assumes "sorted_wrt (<) (lp :: nat list)" "sorted_wrt (<) js" "\<forall>j \<in> set js. j < length lp"
  shows "sorted_wrt (<) (map (\<lambda>j. lp ! j) js)"
proof -
  have "sorted_wrt (\<lambda>a b. lp ! a < lp ! b) js"
  proof (rule sorted_wrt_mono_rel [OF _ assms(2)])
    fix a b assume "a \<in> set js" "b \<in> set js" "a < b"
    with assms(1,3) show "lp ! a < lp ! b" by (simp add: sorted_wrt_nth_less)
  qed
  then show ?thesis by (simp add: sorted_wrt_map)
qed

lemma findWordInTitle_indices:
  assumes inv: "titleInfoInvariant ti" and f: "findWordInTitle ti w = Some idxs"
  shows "length idxs = length w \<and> sorted_wrt (<) idxs \<and>
         (\<forall>k < length w. idxs ! k < length (original ti) \<and>
              toLowerChar (original ti ! (idxs ! k)) = toLowerCase w ! k)"
proof -
  from findWordInTitle_greedy [OF f] obtain js where
    r: "idxs = map (\<lambda>j. letterPositions ti ! j) js"
    and em: "embedsAt (letters ti) 0 (toLowerCase w) js" by blast
  from em have len: "length js = length w" and srt: "sorted_wrt (<) js"
    and bnd: "\<forall>j \<in> set js. j < length (letters ti)"
    and chr: "map (\<lambda>k. letters ti ! k) js = toLowerCase w"
    by (simp_all add: embedsAt_def)
  from inv have l: "length (letterPositions ti) = length (letters ti)"
    and s: "sorted_wrt (<) (letterPositions ti)"
    and o: "\<forall>i < length (letters ti). letterPositions ti ! i < length (original ti) \<and>
             letters ti ! i = toLowerChar (original ti ! (letterPositions ti ! i))"
    by (simp_all add: titleInfoInvariant_def)
  have "sorted_wrt (<) idxs"
    unfolding r using s srt bnd l by (intro sorted_wrt_map_nth) simp_all
  moreover have "\<forall>k < length w. idxs ! k < length (original ti) \<and>
              toLowerChar (original ti ! (idxs ! k)) = toLowerCase w ! k"
  proof (intro allI impI)
    fix k assume k: "k < length w"
    with len bnd have j: "js ! k < length (letters ti)" by simp
    from k len have "toLowerCase w ! k = letters ti ! (js ! k)"
      using chr [symmetric] by simp
    with o j k len r show "idxs ! k < length (original ti) \<and>
              toLowerChar (original ti ! (idxs ! k)) = toLowerCase w ! k" by simp
  qed
  ultimately show ?thesis using r len by simp
qed

text \<open>
  C1. On the \<^verbatim>\<open>TitleInfo\<close> of any title, \<^verbatim>\<open>findWordInTitle\<close> succeeds exactly when the
  lowercased word is a subsequence of \<^verbatim>\<open>letters\<close>; it fails whenever the word is longer than
  \<^verbatim>\<open>letters\<close>; and a returned list has one index of the original title per letter of the
  word, in increasing order, each pointing at that letter, and is the image of the leftmost
  occurrence: position by position no occurrence of the word in \<^verbatim>\<open>letters\<close> starts earlier.
\<close>

theorem findWordInTitle_greedy_subsequence:
  "((\<exists>idxs. findWordInTitle (analyzeTitleTitle title) w = Some idxs)
      \<longleftrightarrow> subseq (toLowerCase w) (letters (analyzeTitleTitle title))) \<and>
   (length (letters (analyzeTitleTitle title)) < length w
      \<longrightarrow> findWordInTitle (analyzeTitleTitle title) w = None) \<and>
   (\<forall>idxs. findWordInTitle (analyzeTitleTitle title) w = Some idxs \<longrightarrow>
      length idxs = length w \<and> sorted_wrt (<) idxs \<and>
      (\<forall>k < length w. idxs ! k < length title \<and>
           toLowerChar (title ! (idxs ! k)) = toLowerCase w ! k) \<and>
      (\<exists>js. idxs = map (\<lambda>j. letterPositions (analyzeTitleTitle title) ! j) js \<and>
            embedsAt (letters (analyzeTitleTitle title)) 0 (toLowerCase w) js \<and>
            (\<forall>ks. embedsAt (letters (analyzeTitleTitle title)) 0 (toLowerCase w) ks
                   \<longrightarrow> list_all2 (\<le>) js ks)))"
proof (intro conjI allI impI)
  show "(\<exists>idxs. findWordInTitle (analyzeTitleTitle title) w = Some idxs)
      \<longleftrightarrow> subseq (toLowerCase w) (letters (analyzeTitleTitle title))"
    by (rule findWordInTitle_subseq)
next
  assume "length (letters (analyzeTitleTitle title)) < length w"
  then show "findWordInTitle (analyzeTitleTitle title) w = None"
    by (simp add: findWordInTitle_def)
next
  fix idxs assume f: "findWordInTitle (analyzeTitleTitle title) w = Some idxs"
  have o: "original (analyzeTitleTitle title) = title"
    by (simp add: analyzeTitleTitle_def Let_def split: prod.splits)
  note i = findWordInTitle_indices [OF analyzeTitleTitle_invariant f, unfolded o]
  from i show "length idxs = length w" by simp
  from i show "sorted_wrt (<) idxs" by simp
  from findWordInTitle_greedy [OF f]
  show "\<exists>js. idxs = map (\<lambda>j. letterPositions (analyzeTitleTitle title) ! j) js \<and>
            embedsAt (letters (analyzeTitleTitle title)) 0 (toLowerCase w) js \<and>
            (\<forall>ks. embedsAt (letters (analyzeTitleTitle title)) 0 (toLowerCase w) ks
                   \<longrightarrow> list_all2 (\<le>) js ks)" .
  fix k assume "k < length w"
  with i show "idxs ! k < length title" by simp
  from i \<open>k < length w\<close> show "toLowerChar (title ! (idxs ! k)) = toLowerCase w ! k" by simp
qed

theorem findWordInTitle_greedy_subsequence_witness:
  "findWordInTitle (analyzeTitleTitle ''Cat Dog'') ''CtG'' = Some [0, 2, 6] \<and>
   subseq (toLowerCase ''CtG'') (letters (analyzeTitleTitle ''Cat Dog'')) \<and>
   length [0, 2, 6 :: nat] = length ''CtG'' \<and>
   length (letters (analyzeTitleTitle ''Cat Dog'')) < length ''catalog'' \<and>
   findWordInTitle (analyzeTitleTitle ''Cat Dog'') ''catalog'' = None"
proof -
  have e: "findWordInTitle (analyzeTitleTitle ''Cat Dog'') ''CtG'' = Some [0, 2, 6]"
    by code_simp
  have l: "length (letters (analyzeTitleTitle ''Cat Dog'')) < length ''catalog''"
    by code_simp
  from findWordInTitle_greedy_subsequence [of "''Cat Dog''" "''CtG''"] e
    findWordInTitle_greedy_subsequence [of "''Cat Dog''" "''catalog''"] l
  show ?thesis by simp
qed

section \<open>Verification: niceness scorer\<close>

lemma indexOf_nonneg_iff: "0 \<le> indexOf xs x \<longleftrightarrow> x \<in> set xs"
  by (induction xs) (auto simp: Let_def)




lemma inWord_int [simp]: "inWord tw (int j) \<longleftrightarrow> touches tw j"
  by (simp add: inWord_def touches_def)

lemma invariant_separated:
  assumes "titleInfoInvariant ti"
  shows "separated (words ti)"
proof -
  from assms have
    a: "\<forall>tw \<in> set (words ti). letterStartIndex tw \<le> letterEndIndex tw"
    and b: "\<forall>k. Suc k < length (words ti) \<longrightarrow>
        letterEndIndex (words ti ! k) \<le> letterStartIndex (words ti ! Suc k)"
    by (simp_all add: titleInfoInvariant_def)
  have "k < l \<Longrightarrow> l < length (words ti) \<Longrightarrow>
          letterEndIndex (words ti ! k) \<le> letterStartIndex (words ti ! l)" for k l
  proof (induction l)
    case 0
    then show ?case by simp
  next
    case (Suc l)
    show ?case
    proof (cases "k = l")
      case True
      with b Suc.prems show ?thesis by simp
    next
      case False
      with Suc have "letterEndIndex (words ti ! k) \<le> letterStartIndex (words ti ! l)" by simp
      also have "\<dots> \<le> letterEndIndex (words ti ! l)" using a Suc.prems by simp
      also have "\<dots> \<le> letterStartIndex (words ti ! Suc l)" using b Suc.prems by simp
      finally show ?thesis .
    qed
  qed
  then show ?thesis by (simp add: separated_def)
qed

lemma separated_unique:
  assumes "separated tws" "k < length tws" "l < length tws" "touches (tws ! k) j" "touches (tws ! l) j"
  shows "k = l"
proof (rule ccontr)
  assume "k \<noteq> l"
  then consider "k < l" | "l < k" by linarith
  then show False
  proof cases
    case 1
    with assms(1,3) have "letterEndIndex (tws ! k) \<le> letterStartIndex (tws ! l)"
      by (simp add: separated_def)
    with assms(4,5) show False by (simp add: touches_def)
  next
    case 2
    with assms(1,2) have "letterEndIndex (tws ! l) \<le> letterStartIndex (tws ! k)"
      by (simp add: separated_def)
    with assms(4,5) show False by (simp add: touches_def)
  qed
qed











lemma initialsLoop_lcp:
  "initialsLoop wl ini i m = m + length (longest_common_prefix (drop i wl) (drop i ini))"
proof (induction wl ini i m rule: initialsLoop.induct)
  case (1 wl ini i m)
  show ?case
  proof (cases "i < min (length wl) (length ini)")
    case False
    then have "drop i wl = [] \<or> drop i ini = []" by auto
    then have "longest_common_prefix (drop i wl) (drop i ini) = []"
      by (cases "drop i wl") auto
    with False show ?thesis by (subst initialsLoop.simps) auto
  next
    case True
    then have d: "drop i wl = wl ! i # drop (Suc i) wl" "drop i ini = ini ! i # drop (Suc i) ini"
      by (simp_all add: Cons_nth_drop_Suc)
    show ?thesis
    proof (cases "wl ! i = ini ! i")
      case e: True
      from "1.IH" [OF True e] True e show ?thesis
        by (subst initialsLoop.simps) (simp add: d)
    next
      case e: False
      with True show ?thesis by (subst initialsLoop.simps) (simp add: d)
    qed
  qed
qed

lemma initialsTerm_spec:
  "initialsTerm ti w =
     Some (let k = length (longest_common_prefix (toLowerCase w) (initials ti))
           in if k > 0 then of_nat k / of_nat (length (initials ti)) * 20 else 0)"
proof -
  have "longest_common_prefix (toLowerCase w) [] = []"
    by (cases "toLowerCase w") simp_all
  then show ?thesis
    by (cases "initials ti = []") (simp_all add: initialsTerm_def initialsLoop_lcp Let_def jsDivide_def)
qed



lemma startLetterInner_total: "\<exists>s'. startLetterInner tws letterIdx s = Some s'"
proof (induction tws)
  case Nil
  show ?case by simp
next
  case (Cons tw tws)
  have "max (int (letterEndIndex tw) - int (letterStartIndex tw) - 1) 1 \<noteq> 0"
    by (simp add: max_def)
  with Cons show ?case by (simp add: Let_def jsDivide_def)
qed

lemma startLetterLoop_total: "\<exists>s'. startLetterLoop ti letterIndices s = Some s'"
proof (induction letterIndices arbitrary: s)
  case Nil
  show ?case by simp
next
  case (Cons letterIdx rest)
  obtain s1 where "startLetterInner (words ti) letterIdx s = Some s1"
    using startLetterInner_total by blast
  with Cons [of s1] show ?case by simp
qed

lemma startLetterTerm_total: "\<exists>t. startLetterTerm ti wordLen letterIndices = Some t"
proof -
  obtain s where "startLetterLoop ti letterIndices 0 = Some s"
    using startLetterLoop_total by blast
  then show ?thesis by (simp add: startLetterTerm_def jsDivide_def max_def)
qed

lemma wordCoverageTerm_total: "\<exists>t. wordCoverageTerm ti letterIndices = Some t"
  by (simp add: wordCoverageTerm_def jsDivide_def Let_def)

lemma initialsTerm_total: "\<exists>t. initialsTerm ti w = Some t"
  by (simp add: initialsTerm_spec)

lemma calculateNiceness_total: "\<exists>s. calculateNiceness ti w idxs = Some s"
proof -
  obtain c where c: "wordCoverageTerm ti (letterIndicesOf ti idxs) = Some c"
    using wordCoverageTerm_total by blast
  obtain t where t: "startLetterTerm ti (length w) (letterIndicesOf ti idxs) = Some t"
    using startLetterTerm_total by blast
  obtain i where i: "initialsTerm ti w = Some i"
    using initialsTerm_total by blast
  show ?thesis by (simp add: calculateNiceness_def Let_def c t i)
qed






section \<open>Verification: sorting\<close>

lemma mset_insertSorted: "mset (insertSorted cmp x xs) = add_mset x (mset xs)"
  by (induction xs) auto

lemma mset_jsSort: "mset (jsSort cmp xs) = mset xs"
  unfolding jsSort_def by (induction xs) (auto simp: mset_insertSorted)

lemma set_jsSort: "set (jsSort cmp xs) = set xs"
  using mset_jsSort [of cmp xs] by (metis set_mset_mset)















section \<open>Verification: exact match search\<close>

lemma exactLoop_eq:
  "exactLoop calculateNiceness ti minLength active searchLower ws matches
   = Some (matches @ map (exactMatchOf ti) (filter (exactCandidate ti minLength active searchLower) ws))"
proof (induction ws arbitrary: matches)
  case Nil
  show ?case by simp
next
  case (Cons w ws)
  show ?case
  proof (cases "exactCandidate ti minLength active searchLower w")
    case False
    then show ?thesis
      using Cons by (auto simp: exactCandidate_def)
  next
    case True
    then obtain idxs where f: "findWordInTitle ti w = Some idxs"
      by (auto simp: exactCandidate_def)
    obtain n where n: "calculateNiceness ti w idxs = Some n"
      using calculateNiceness_total by blast
    from True f n show ?thesis
      using Cons by (auto simp: exactCandidate_def exactMatchOf_def)
  qed
qed




section \<open>Verification: compound synthesizer\<close>

lemma tryCompound_fabricated:
  "tryCompound ti wordSet searchLower minWordLength seen first second = Some (Some m)
     \<Longrightarrow> fabricated ti wordSet m"
  unfolding tryCompound_def Let_def fabricated_def
  by (auto split: if_splits option.splits Option.bind_splits)

lemma tryCompound_total:
  "\<exists>r. tryCompound ti wordSet searchLower minWordLength seen first second = Some r"
proof (cases "findWordInTitle ti (mword first @ mword second)")
  case None
  then show ?thesis by (simp add: tryCompound_def Let_def)
next
  case (Some idxs)
  obtain n where "calculateNiceness ti (mword first @ mword second) idxs = Some n"
    using calculateNiceness_total by blast
  with Some show ?thesis by (simp add: tryCompound_def Let_def)
qed

lemma compoundInner_inv:
  "compoundInner ti wordSet searchLower minWordLength pool maxCandidates i j (seen, compounds)
     = Some (seen', compounds') \<Longrightarrow>
   \<forall>m \<in> set compounds. fabricated ti wordSet m \<Longrightarrow>
   \<forall>m \<in> set compounds'. fabricated ti wordSet m"
proof (induction ti wordSet searchLower minWordLength pool maxCandidates i j "(seen, compounds)"
    arbitrary: seen compounds rule: compoundInner.induct)
  case (1 ti wordSet searchLower minWordLength pool maxCandidates i j seen compounds)
  note eq = "1.prems"(1) and inv = "1.prems"(2)
  show ?case
  proof (cases "j < length pool")
    case False
    with eq inv show ?thesis by (subst (asm) compoundInner.simps) simp
  next
    case jl: True
    show ?thesis
    proof (cases "i = j")
      case True
      with jl eq have "compoundInner ti wordSet searchLower minWordLength pool maxCandidates i
          (j + 1) (seen, compounds) = Some (seen', compounds')"
        by (subst (asm) compoundInner.simps) simp
      from "1.hyps"(1) [OF jl True this inv] show ?thesis .
    next
      case ne: False
      obtain r where r: "tryCompound ti wordSet searchLower minWordLength seen (pool ! i) (pool ! j)
          = Some r" using tryCompound_total by blast
      show ?thesis
      proof (cases r)
        case None
        with r jl ne eq have "compoundInner ti wordSet searchLower minWordLength pool
            maxCandidates i (j + 1) (seen, compounds) = Some (seen', compounds')"
          by (subst (asm) compoundInner.simps) simp
        from "1.hyps"(2) [OF jl ne _ _ this inv] r None show ?thesis by simp
      next
        case (Some m)
        with r have fm: "fabricated ti wordSet m" by (simp add: tryCompound_fabricated)
        with inv have inv': "\<forall>x \<in> set (compounds @ [m]). fabricated ti wordSet x" by simp
        show ?thesis
        proof (cases "length (compounds @ [m]) \<ge> maxCandidates")
          case True
          with r Some jl ne eq have "compounds' = compounds @ [m]"
            by (subst (asm) compoundInner.simps) (simp add: Let_def)
          with inv' show ?thesis by simp
        next
          case False
          with r Some jl ne eq have "compoundInner ti wordSet searchLower minWordLength pool
              maxCandidates i (j + 1) (insert (mword m) seen, compounds @ [m])
              = Some (seen', compounds')"
            by (subst (asm) compoundInner.simps) (simp add: Let_def)
          from "1.hyps"(3) [OF jl ne _ _ refl refl False this inv'] r Some
          show ?thesis by simp
        qed
      qed
    qed
  qed
qed

lemma compoundInner_total:
  "\<exists>r. compoundInner ti wordSet searchLower minWordLength pool maxCandidates i j st = Some r"
proof (induction ti wordSet searchLower minWordLength pool maxCandidates i j st
    rule: compoundInner.induct)
  case (1 ti wordSet searchLower minWordLength pool maxCandidates i j seen compounds)
  show ?case
  proof (cases "j < length pool")
    case False
    then show ?thesis by (subst compoundInner.simps) simp
  next
    case jl: True
    show ?thesis
    proof (cases "i = j")
      case True
      from "1.IH"(1) [OF jl True] jl True show ?thesis
        by (subst compoundInner.simps) simp
    next
      case ne: False
      obtain r where r: "tryCompound ti wordSet searchLower minWordLength seen (pool ! i) (pool ! j)
          = Some r" using tryCompound_total by blast
      show ?thesis
      proof (cases r)
        case None
        from "1.IH"(2) [OF jl ne] r None jl ne show ?thesis
          by (subst compoundInner.simps) simp
      next
        case (Some m)
        show ?thesis
        proof (cases "length (compounds @ [m]) \<ge> maxCandidates")
          case True
          with r Some jl ne show ?thesis
            by (subst compoundInner.simps) (simp add: Let_def)
        next
          case False
          from "1.IH"(3) [OF jl ne _ _ refl refl False] r Some jl ne False show ?thesis
            by (subst compoundInner.simps) (simp add: Let_def)
        qed
      qed
    qed
  qed
qed

lemma compoundOuter_inv:
  "compoundOuter ti wordSet searchLower minWordLength pool maxCandidates i (seen, compounds)
     = Some (seen', compounds') \<Longrightarrow>
   \<forall>m \<in> set compounds. fabricated ti wordSet m \<Longrightarrow>
   \<forall>m \<in> set compounds'. fabricated ti wordSet m"
proof (induction ti wordSet searchLower minWordLength pool maxCandidates i "(seen, compounds)"
    arbitrary: seen compounds rule: compoundOuter.induct)
  case (1 ti wordSet searchLower minWordLength pool maxCandidates i seen compounds)
  note eq = "1.prems"(1) and inv = "1.prems"(2)
  show ?case
  proof (cases "i < length pool")
    case False
    with eq inv show ?thesis by (subst (asm) compoundOuter.simps) simp
  next
    case il: True
    obtain s1 c1 where in1: "compoundInner ti wordSet searchLower minWordLength pool
        maxCandidates i 0 (seen, compounds) = Some (s1, c1)"
      using compoundInner_total by (metis surj_pair)
    from compoundInner_inv [OF in1 inv] have inv1: "\<forall>m \<in> set c1. fabricated ti wordSet m" .
    show ?thesis
    proof (cases "length c1 \<ge> maxCandidates")
      case True
      with il in1 eq have "compounds' = c1"
        by (subst (asm) compoundOuter.simps) simp
      with inv1 show ?thesis by simp
    next
      case False
      with il in1 eq have "compoundOuter ti wordSet searchLower minWordLength pool
          maxCandidates (i + 1) (s1, c1) = Some (seen', compounds')"
        by (subst (asm) compoundOuter.simps) simp
      from "1.hyps" [OF il in1 refl False this inv1] show ?thesis .
    qed
  qed
qed

lemma compoundOuter_total:
  "\<exists>r. compoundOuter ti wordSet searchLower minWordLength pool maxCandidates i st = Some r"
proof (induction ti wordSet searchLower minWordLength pool maxCandidates i st
    rule: compoundOuter.induct)
  case (1 ti wordSet searchLower minWordLength pool maxCandidates i seen compounds)
  show ?case
  proof (cases "i < length pool")
    case False
    then show ?thesis by (subst compoundOuter.simps) simp
  next
    case il: True
    obtain s1 c1 where in1: "compoundInner ti wordSet searchLower minWordLength pool
        maxCandidates i 0 (seen, compounds) = Some (s1, c1)"
      using compoundInner_total by (metis surj_pair)
    show ?thesis
    proof (cases "length c1 \<ge> maxCandidates")
      case True
      with il in1 show ?thesis by (subst compoundOuter.simps) simp
    next
      case False
      from "1.IH" [OF il in1 refl False] il in1 False show ?thesis
        by (subst compoundOuter.simps) simp
    qed
  qed
qed


lemma generateCompoundMatches_fabricated:
  assumes "generateCompoundMatches ti exactMatches wordSet searchLower minWordLength maxResults
          minComponentLength componentPoolSize = Some r"
  shows "\<forall>m \<in> set r. fabricated ti wordSet m"
proof (cases "maxResults \<le> 0 \<or>
    length (filter (\<lambda>m. length (mword m) \<ge> minComponentLength) exactMatches) < 2")
  case True
  with assms have "r = []"
    by (auto simp: generateCompoundMatches_def Let_def split: if_splits)
  then show ?thesis by simp
next
  case False
  let ?pool = "take componentPoolSize
      (filter (\<lambda>m. length (mword m) \<ge> minComponentLength) exactMatches)"
  obtain s c where o: "compoundOuter ti wordSet searchLower minWordLength ?pool
      (max (maxResults * 3) (length ?pool)) 0 ({}, []) = Some (s, c)"
    using compoundOuter_total by (metis surj_pair)
  from compoundOuter_inv [OF o] have c: "\<forall>m \<in> set c. fabricated ti wordSet m" by simp
  from assms False o have "r = take maxResults (jsSort compareMatches c)"
    by (simp add: generateCompoundMatches_def Let_def)
  then have "set r \<subseteq> set c" using set_take_subset [of maxResults "jsSort compareMatches c"]
    by (simp add: set_jsSort)
  with c show ?thesis by blast
qed

lemma findAllMatches_result:
  assumes "findAllMatches ti allWords wordSet minLength maxResults searchTerm includeCompounds
           = Some (exact, compound)"
  shows "exact = take maxResults (jsSort compareMatches (map (exactMatchOf ti)
            (filter (exactCandidate ti minLength (toLowerCase (trim searchTerm) \<noteq> [])
                       (toLowerCase (trim searchTerm))) allWords)))"
    and "\<forall>c \<in> set compound. fabricated ti wordSet c"
proof -
  let ?sl = "toLowerCase (trim searchTerm)"
  let ?sorted = "jsSort compareMatches (map (exactMatchOf ti)
            (filter (exactCandidate ti minLength (?sl \<noteq> []) ?sl) allWords))"
  from assms show "exact = take maxResults ?sorted"
    by (auto simp: findAllMatches_def Let_def exactLoop_eq split: if_splits Option.bind_splits)
  show "\<forall>c \<in> set compound. fabricated ti wordSet c"
  proof (cases includeCompounds)
    case False
    with assms have "compound = []"
      by (auto simp: findAllMatches_def Let_def exactLoop_eq split: Option.bind_splits)
    then show ?thesis by simp
  next
    case True
    with assms obtain generated where
      g: "generateCompoundMatches ti ?sorted wordSet ?sl minLength (max 1 (maxResults div 2))
            (max 2 (min 4 minLength)) 80 = Some generated"
      and c: "compound = filter (\<lambda>c. mword c \<notin> set (map mword (take maxResults ?sorted))) generated"
      by (auto simp: findAllMatches_def Let_def exactLoop_eq split: Option.bind_splits)
    from generateCompoundMatches_fabricated [OF g] c show ?thesis by simp
  qed
qed








section \<open>Verification: edit distance\<close>

lemma initRow_length [simp]: "length (initRow n j prev) = length prev"
  by (induction n j prev rule: initRow.induct) (subst initRow.simps, simp)

lemma initRow_eq:
  "length prev = n + 1 \<Longrightarrow> \<forall>k < j. prev ! k = k \<Longrightarrow> \<forall>k \<le> n. initRow n j prev ! k = k"
proof (induction n j prev rule: initRow.induct)
  case (1 n j prev)
  show ?case
  proof (cases "j \<le> n")
    case False
    with "1.prems" show ?thesis by (subst initRow.simps) simp
  next
    case True
    have "\<forall>k < j + 1. prev[j := j] ! k = k"
      using "1.prems" True by (auto simp: nth_list_update)
    with "1.IH" [OF True] "1.prems"(1) True show ?thesis
      by (subst initRow.simps) simp
  qed
qed

lemma fillRow_length [simp]: "length (fillRow a b i j prev cur) = length cur"
  by (induction a b i j prev cur rule: fillRow.induct) (subst fillRow.simps, simp)

lemma fillRow_eq:
  "length cur = length b + 1 \<Longrightarrow> 0 < i \<Longrightarrow> 0 < j \<Longrightarrow>
   \<forall>k \<le> length b. prev ! k = distTable a b (i - 1) k \<Longrightarrow>
   \<forall>k < j. cur ! k = distTable a b i k \<Longrightarrow>
   \<forall>k \<le> length b. fillRow a b i j prev cur ! k = distTable a b i k"
proof (induction a b i j prev cur rule: fillRow.induct)
  case (1 a b i j prev cur)
  show ?case
  proof (cases "j \<le> length b")
    case False
    with "1.prems" show ?thesis by (subst fillRow.simps) simp
  next
    case True
    obtain i' j' where i: "i = Suc i'" and j: "j = Suc j'"
      using "1.prems"(2,3) by (metis gr0_implies_Suc)
    let ?v = "if a ! (i - 1) = b ! (j - 1) then prev ! (j - 1)
              else 1 + min (prev ! (j - 1)) (min (prev ! j) (cur ! (j - 1)))"
    have v: "?v = distTable a b i j"
      using "1.prems"(4,5) True by (simp add: i j)
    have "\<forall>k < j + 1. cur[j := ?v] ! k = distTable a b i k"
    proof (intro allI impI)
      fix k assume "k < j + 1"
      then consider "k < j" | "k = j" by linarith
      then show "cur[j := ?v] ! k = distTable a b i k"
      proof cases
        case 1
        with "1.prems"(5) show ?thesis by simp
      next
        case 2
        with v "1.prems"(1) True show ?thesis by simp
      qed
    qed
    with "1.IH" [OF True] "1.prems" True show ?thesis
      by (subst fillRow.simps) simp
  qed
qed

lemma copyRow_length [simp]: "length (copyRow n j prev cur) = length prev"
  by (induction n j prev cur rule: copyRow.induct) (subst copyRow.simps, simp)

lemma copyRow_eq:
  "length prev = n + 1 \<Longrightarrow> \<forall>k < j. prev ! k = cur ! k \<Longrightarrow>
   \<forall>k \<le> n. copyRow n j prev cur ! k = cur ! k"
proof (induction n j prev cur rule: copyRow.induct)
  case (1 n j prev cur)
  show ?case
  proof (cases "j \<le> n")
    case False
    with "1.prems" show ?thesis by (subst copyRow.simps) simp
  next
    case True
    have "\<forall>k < j + 1. prev[j := cur ! j] ! k = cur ! k"
      using "1.prems" True by (auto simp: nth_list_update)
    with "1.IH" [OF True] "1.prems"(1) True show ?thesis
      by (subst copyRow.simps) simp
  qed
qed

lemma rowLoop_eq:
  "length prev = length b + 1 \<Longrightarrow> length cur = length b + 1 \<Longrightarrow> 0 < i \<Longrightarrow> i \<le> length a + 1 \<Longrightarrow>
   \<forall>k \<le> length b. prev ! k = distTable a b (i - 1) k \<Longrightarrow>
   \<forall>k \<le> length b. rowLoop a b i prev cur ! k = distTable a b (length a) k"
proof (induction a b i prev cur rule: rowLoop.induct)
  case (1 a b i prev cur)
  show ?case
  proof (cases "i \<le> length a")
    case False
    with "1.prems"(4) have "i - 1 = length a" by simp
    with False "1.prems"(5) show ?thesis by (subst rowLoop.simps) simp
  next
    case True
    let ?cur0 = "cur[0 := i]"
    let ?cur1 = "fillRow a b i 1 prev ?cur0"
    let ?prev1 = "copyRow (length b) 0 prev ?cur1"
    obtain i' where i: "i = Suc i'" using "1.prems"(3) by (metis gr0_implies_Suc)
    have c0: "\<forall>k < 1. ?cur0 ! k = distTable a b i k"
      using "1.prems"(2) by (simp add: i)
    have c1: "\<forall>k \<le> length b. ?cur1 ! k = distTable a b i k"
      by (rule fillRow_eq) (use "1.prems" c0 in simp_all)
    have p1: "\<forall>k \<le> length b. ?prev1 ! k = ?cur1 ! k"
      by (rule copyRow_eq) (use "1.prems" in simp_all)
    have "\<forall>k \<le> length b. rowLoop a b (i + 1) ?prev1 ?cur1 ! k = distTable a b (length a) k"
      by (rule "1.IH" [OF True refl refl refl]) (use "1.prems" True c1 p1 in simp_all)
    with True show ?thesis by (subst rowLoop.simps) (simp add: Let_def)
  qed
qed

lemma editDistance_distTable: "editDistance a b = distTable a b (length a) (length b)"
proof -
  let ?prev = "initRow (length b) 0 (replicate (length b + 1) 0)"
  have p: "\<forall>k \<le> length b. ?prev ! k = k"
    by (rule initRow_eq) simp_all
  have "\<forall>k \<le> length b. rowLoop a b 1 ?prev (replicate (length b + 1) 0) ! k
          = distTable a b (length a) k"
    by (rule rowLoop_eq) (use p in simp_all)
  then show ?thesis by (simp add: editDistance_def Let_def)
qed

lemma distTable_sym: "distTable a b i j = distTable b a j i"
proof (induction a b i j rule: distTable.induct)
  case (1 a b j)
  show ?case by (cases j) simp_all
next
  case (2 a b i)
  show ?case by simp
next
  case (3 a b i j)
  show ?case
  proof (cases "a ! i = b ! j")
    case True
    with 3 show ?thesis by simp
  next
    case False
    then have "b ! j \<noteq> a ! i" by simp
    with 3 False show ?thesis by (simp add: min.commute min.left_commute)
  qed
qed

lemma distTable_diag: "distTable a a i i = 0"
  by (induction i) simp_all

lemma distTable_empty: "distTable a b i 0 = i"
  by (cases i) simp_all

text \<open>
  C8. \<^verbatim>\<open>editDistance\<close> is symmetric, is 0 between a string and itself, and is the length
  of the string against the empty string.
\<close>

theorem editDistance_equations:
  "editDistance a b = editDistance b a \<and> editDistance a a = 0 \<and> editDistance a [] = length a"
  by (simp add: editDistance_distTable distTable_sym [of a b] distTable_diag distTable_empty)

section \<open>Verification: near-match search\<close>

lemma nearMatch_total: "\<exists>m. nearMatch ti ini maxEditDistance w distance = Some m"
  by (simp add: nearMatch_def jsDivide_def Let_def)

lemma nearMatch_fields:
  "nearMatch ti ini maxEditDistance w distance = Some m \<Longrightarrow>
     mword m = w \<and> mtype m = Near \<and> editDist m = Some distance"
  by (auto simp: nearMatch_def jsDivide_def Let_def split: if_splits)

lemma nearLoop_inv:
  "nearLoop ti (toLowerCase (initials ti)) minLen maxLen maxEditDistance maxResults ws results
     = Some r \<Longrightarrow>
   \<forall>m \<in> set results. isNearMatch ti maxEditDistance m \<Longrightarrow>
   \<forall>m \<in> set r. isNearMatch ti maxEditDistance m"
proof (induction ws arbitrary: results)
  case Nil
  then show ?case by simp
next
  case (Cons w ws)
  let ?ini = "toLowerCase (initials ti)"
  let ?d = "editDistance (toLowerCase w) ?ini"
  note eq = Cons.prems(1) and inv = Cons.prems(2)
  show ?case
  proof (cases "length w < minLen \<or> length w > maxLen")
    case True
    with eq have "nearLoop ti ?ini minLen maxLen maxEditDistance maxResults ws results = Some r"
      by simp
    from Cons.IH [OF this inv] show ?thesis .
  next
    case inr: False
    show ?thesis
    proof (cases "?d > 0 \<and> ?d \<le> maxEditDistance")
      case False
      show ?thesis
      proof (cases "length results \<ge> maxResults * 2")
        case True
        with False inr eq have "r = results" by (auto simp: Let_def)
        with inv show ?thesis by simp
      next
        case nb: False
        with False inr eq
        have "nearLoop ti ?ini minLen maxLen maxEditDistance maxResults ws results = Some r"
          by (auto simp: Let_def)
        from Cons.IH [OF this inv] show ?thesis .
      qed
    next
      case dr: True
      show ?thesis
      proof (cases "findWordInTitle ti w")
        case (Some exactIndices)
        with dr inr eq
        have "nearLoop ti ?ini minLen maxLen maxEditDistance maxResults ws results = Some r"
          by (auto simp: Let_def)
        from Cons.IH [OF this inv] show ?thesis .
      next
        case None
        obtain m where m: "nearMatch ti ?ini maxEditDistance w ?d = Some m"
          using nearMatch_total by blast
        from nearMatch_fields [OF m] dr None have "isNearMatch ti maxEditDistance m"
          by (simp add: isNearMatch_def)
        with inv have inv': "\<forall>x \<in> set (results @ [m]). isNearMatch ti maxEditDistance x"
          by simp
        show ?thesis
        proof (cases "length (results @ [m]) \<ge> maxResults * 2")
          case True
          with m None dr inr eq have "r = results @ [m]" by (auto simp: Let_def)
          with inv' show ?thesis by simp
        next
          case False
          with m None dr inr eq
          have "nearLoop ti ?ini minLen maxLen maxEditDistance maxResults ws (results @ [m])
                  = Some r"
            by (auto simp: Let_def)
          from Cons.IH [OF this inv'] show ?thesis .
        qed
      qed
    qed
  qed
qed

lemma nearLoop_total:
  "\<exists>r. nearLoop ti ini minLen maxLen maxEditDistance maxResults ws results = Some r"
proof (induction ws arbitrary: results)
  case Nil
  show ?case by simp
next
  case (Cons w ws)
  obtain m where m: "nearMatch ti ini maxEditDistance w (editDistance (toLowerCase w) ini) = Some m"
    using nearMatch_total by blast
  from Cons [of results] Cons [of "results @ [m]"] m show ?case
    by (auto simp: Let_def split: option.splits)
qed

lemma findNearMatches_total: "\<exists>r. findNearMatches ti allWords maxEditDistance maxResults = Some r"
proof -
  obtain r where "nearLoop ti (toLowerCase (initials ti))
      (max 2 (length (toLowerCase (initials ti)) - maxEditDistance))
      (length (toLowerCase (initials ti)) + maxEditDistance + 2) maxEditDistance maxResults
      allWords [] = Some r"
    using nearLoop_total by blast
  then show ?thesis by (simp add: findNearMatches_def Let_def)
qed

lemma findNearMatches_inv:
  assumes "findNearMatches ti allWords maxEditDistance maxResults = Some r"
  shows "\<forall>m \<in> set r. isNearMatch ti maxEditDistance m"
proof (cases "length (toLowerCase (initials ti)) < 2")
  case True
  with assms have "r = []" by (simp add: findNearMatches_def Let_def)
  then show ?thesis by simp
next
  case False
  obtain rs where l: "nearLoop ti (toLowerCase (initials ti))
      (max 2 (length (toLowerCase (initials ti)) - maxEditDistance))
      (length (toLowerCase (initials ti)) + maxEditDistance + 2) maxEditDistance maxResults
      allWords [] = Some rs"
    using nearLoop_total by blast
  from nearLoop_inv [OF l] have i: "\<forall>m \<in> set rs. isNearMatch ti maxEditDistance m" by simp
  from assms False l have "r = take maxResults (jsSort compareNiceness rs)"
    by (simp add: findNearMatches_def Let_def)
  then have "set r \<subseteq> set rs"
    using set_take_subset [of maxResults "jsSort compareNiceness rs"] by (simp add: set_jsSort)
  with i show ?thesis by blast
qed

lemma exactLoop_found:
  "exactLoop calc ti minLength active searchLower ws matches = Some r \<Longrightarrow>
   \<forall>m \<in> set matches. mtype m = Exact \<and> findWordInTitle ti (mword m) \<noteq> None \<Longrightarrow>
   \<forall>m \<in> set r. mtype m = Exact \<and> findWordInTitle ti (mword m) \<noteq> None"
proof (induction ws arbitrary: matches)
  case Nil
  then show ?case by simp
next
  case (Cons w ws)
  show ?case
  proof (cases "length w < minLength \<or> length w > length (letters ti) \<or>
                (active \<and> \<not> stringIncludes w searchLower) \<or> findWordInTitle ti w = None")
    case True
    with Cons.prems(1)
    have "exactLoop calc ti minLength active searchLower ws matches = Some r"
      by (auto split: if_splits)
    from Cons.IH [OF this Cons.prems(2)] show ?thesis .
  next
    case False
    then obtain idxs where f: "findWordInTitle ti w = Some idxs" by auto
    with False Cons.prems(1) obtain n where
      "exactLoop calc ti minLength active searchLower ws
         (matches @ [\<lparr>mword = w, indices = idxs, niceness = n, mtype = Exact,
                       components = None, editDist = None\<rparr>]) = Some r"
      by (auto split: Option.bind_splits)
    from Cons.IH [OF this] Cons.prems(2) f show ?thesis by simp
  qed
qed

lemma splitLoop_inv:
  "splitLoop ti wordSet minComponentLength w idxs splitPoint (seen, results) = Some (seen', results')
     \<Longrightarrow> \<forall>m \<in> set results. mtype m = Compound \<Longrightarrow> \<forall>m \<in> set results'. mtype m = Compound"
proof (induction ti wordSet minComponentLength w idxs splitPoint "(seen, results)"
    arbitrary: seen results rule: splitLoop.induct)
  case (1 ti wordSet minComponentLength w idxs splitPoint seen results)
  from "1.prems"(1) show ?case
    apply (subst (asm) splitLoop.simps)
    apply (auto simp: Let_def split: if_splits Option.bind_splits
        dest: "1.hyps"(1) [OF _ refl refl _ _ _ "1.prems"(2)] "1.hyps"(2) [OF _ refl refl _ _ "1.prems"(2)])
    using "1.prems"(2) apply auto
    done
qed

lemma compoundWordsLoop_inv:
  "compoundWordsLoop ti wordSet minComponentLength maxResults ws (seen, results) = Some r \<Longrightarrow>
   \<forall>m \<in> set results. mtype m = Compound \<Longrightarrow> \<forall>m \<in> set r. mtype m = Compound"
proof (induction ws arbitrary: seen results)
  case Nil
  then show ?case by simp
next
  case (Cons w ws)
  show ?case
  proof (cases "length w < minComponentLength * 2 \<or> length w > length (letters ti) \<or>
                findWordInTitle ti w = None")
    case True
    with Cons.prems(1)
    have "compoundWordsLoop ti wordSet minComponentLength maxResults ws (seen, results) = Some r"
      by (auto split: if_splits)
    from Cons.IH [OF this Cons.prems(2)] show ?thesis .
  next
    case False
    then obtain idxs where f: "findWordInTitle ti w = Some idxs" by auto
    with False Cons.prems(1) obtain seen' results' where
      s: "splitLoop ti wordSet minComponentLength w idxs minComponentLength (seen, results)
            = Some (seen', results')"
      by (auto split: option.splits)
    from splitLoop_inv [OF s Cons.prems(2)] have i: "\<forall>m \<in> set results'. mtype m = Compound" .
    show ?thesis
    proof (cases "length results' \<ge> maxResults")
      case True
      with False f s Cons.prems(1) have "r = results'" by auto
      with i show ?thesis by simp
    next
      case nb: False
      with False f s Cons.prems(1)
      have "compoundWordsLoop ti wordSet minComponentLength maxResults ws (seen', results') = Some r"
        by auto
      from Cons.IH [OF this i] show ?thesis .
    qed
  qed
qed

lemma findAllMatches_v1_parts:
  assumes "findAllMatches_v1 ti allWords wordSet minLength maxResults searchTerm includeCompounds
             includeNearMatches = Some (exact, compound, near)"
  shows "\<forall>m \<in> set exact. mtype m = Exact \<and> findWordInTitle ti (mword m) \<noteq> None"
    and "\<forall>m \<in> set compound. mtype m = Compound"
    and "\<forall>m \<in> set near. isNearMatch ti 2 m"
proof -
  from assms obtain exactMatches where
    e: "exactLoop calculateNiceness_v1 ti minLength (searchTerm \<noteq> []) (toLowerCase searchTerm)
          allWords [] = Some exactMatches"
    and x: "exact = take maxResults (jsSort compareMatches exactMatches)"
    by (auto simp: findAllMatches_v1_def Let_def split: Option.bind_splits)
  from exactLoop_found [OF e]
  have "\<forall>m \<in> set exactMatches. mtype m = Exact \<and> findWordInTitle ti (mword m) \<noteq> None" by simp
  moreover have "set exact \<subseteq> set exactMatches"
    unfolding x using set_take_subset [of maxResults "jsSort compareMatches exactMatches"]
    by (simp add: set_jsSort)
  ultimately show "\<forall>m \<in> set exact. mtype m = Exact \<and> findWordInTitle ti (mword m) \<noteq> None"
    by blast
  show "\<forall>m \<in> set compound. mtype m = Compound"
  proof (cases includeCompounds)
    case False
    with assms have "compound = []"
      by (auto simp: findAllMatches_v1_def Let_def split: Option.bind_splits)
    then show ?thesis by simp
  next
    case True
    with assms obtain allCompounds where
      a: "findCompoundWords ti wordSet allWords 3 maxResults = Some allCompounds"
      and c: "compound = take (maxResults div 2)
                (filter (\<lambda>c. mword c \<notin> set (map mword exact)) allCompounds)"
      by (auto simp: findAllMatches_v1_def Let_def x split: Option.bind_splits)
    from a obtain rs where
      l: "compoundWordsLoop ti wordSet 3 maxResults allWords ({}, []) = Some rs"
      and s: "allCompounds = jsSort compareNiceness rs"
      by (auto simp: findCompoundWords_def split: Option.bind_splits)
    from compoundWordsLoop_inv [OF l] have "\<forall>m \<in> set rs. mtype m = Compound" by simp
    moreover have "set compound \<subseteq> set rs"
      unfolding c s using set_take_subset [of "maxResults div 2"]
      by (fastforce simp: set_jsSort)
    ultimately show ?thesis by blast
  qed
  show "\<forall>m \<in> set near. isNearMatch ti 2 m"
  proof (cases includeNearMatches)
    case False
    with assms have "near = []"
      by (auto simp: findAllMatches_v1_def Let_def split: Option.bind_splits if_splits)
    then show ?thesis by simp
  next
    case True
    with assms have "findNearMatches ti allWords 2 (maxResults div 2) = Some near"
      by (auto simp: findAllMatches_v1_def Let_def split: Option.bind_splits if_splits)
    then show ?thesis by (rule findNearMatches_inv)
  qed
qed

section \<open>Verification: data-model invariant and totality of the earlier search\<close>

lemma analyze_words_nonempty: "\<forall>tw \<in> set (words (analyzeTitleTitle title)). word tw \<noteq> []"
proof -
  have "chained 0 (words (analyzeTitleTitle title))
          (0 + length (filter isAsciiLetter (drop 0 title)))"
    using execLoop_chained [of 0 title 0] by (simp add: analyze_words)
  from chained_props [OF this] show ?thesis by blast
qed

lemma invariant_unique_word:
  assumes "titleInfoInvariant ti" and "i < length (letters ti)"
  shows "\<exists>!k. k < length (words ti) \<and> touches (words ti ! k) i"
proof -
  from assms obtain tw where "tw \<in> set (words ti)" "letterStartIndex tw \<le> i"
    "i < letterEndIndex tw"
    unfolding titleInfoInvariant_def by blast
  then obtain k where k: "k < length (words ti)" "touches (words ti ! k) i"
    by (metis in_set_conv_nth touches_def)
  show ?thesis
  proof (rule ex1I [of _ k])
    show "k < length (words ti) \<and> touches (words ti ! k) i" using k by simp
    show "l = k" if "l < length (words ti) \<and> touches (words ti ! l) i" for l
      using separated_unique [OF invariant_separated [OF assms(1)], of l k i] that k by simp
  qed
qed

text \<open>
  C9. The \<^verbatim>\<open>TitleInfo\<close> that \<^verbatim>\<open>analyzeTitleTitle\<close> returns for any title keeps the title
  and satisfies the data-model invariant; every position of \<^verbatim>\<open>letters\<close> lies in the range
  of exactly one title word, and no title word is empty.
\<close>

theorem analyzeTitleTitle_establishes_invariant:
  "original (analyzeTitleTitle title) = title \<and>
   titleInfoInvariant (analyzeTitleTitle title) \<and>
   (\<forall>i < length (letters (analyzeTitleTitle title)).
      \<exists>!k. k < length (words (analyzeTitleTitle title)) \<and>
           touches (words (analyzeTitleTitle title) ! k) i) \<and>
   (\<forall>tw \<in> set (words (analyzeTitleTitle title)). word tw \<noteq> [])"
proof (intro conjI allI impI)
  show "original (analyzeTitleTitle title) = title"
    by (simp add: analyzeTitleTitle_def Let_def split: prod.splits)
  show "titleInfoInvariant (analyzeTitleTitle title)"
    by (rule analyzeTitleTitle_invariant)
  show "\<forall>tw \<in> set (words (analyzeTitleTitle title)). word tw \<noteq> []"
    by (rule analyze_words_nonempty)
  fix i assume "i < length (letters (analyzeTitleTitle title))"
  with analyzeTitleTitle_invariant
  show "\<exists>!k. k < length (words (analyzeTitleTitle title)) \<and>
           touches (words (analyzeTitleTitle title) ! k) i"
    by (rule invariant_unique_word)
qed

theorem analyzeTitleTitle_establishes_invariant_witness:
  "analyzeTitleTitle ''Cat Dog'' =
     \<lparr>original = ''Cat Dog'', letters = ''catdog'', letterPositions = [0, 1, 2, 4, 5, 6],
      words = [\<lparr>word = ''cat'', startIndex = 0, letterStartIndex = 0, letterEndIndex = 3\<rparr>,
               \<lparr>word = ''dog'', startIndex = 4, letterStartIndex = 3, letterEndIndex = 6\<rparr>],
      initials = ''cd''\<rparr> \<and>
   titleInfoInvariant
     \<lparr>original = ''Cat Dog'', letters = ''catdog'', letterPositions = [0, 1, 2, 4, 5, 6],
      words = [\<lparr>word = ''cat'', startIndex = 0, letterStartIndex = 0, letterEndIndex = 3\<rparr>,
               \<lparr>word = ''dog'', startIndex = 4, letterStartIndex = 3, letterEndIndex = 6\<rparr>],
      initials = ''cd''\<rparr> \<and>
   (4 :: nat) < length ''catdog'' \<and>
   (\<exists>!k. k < length [\<lparr>word = ''cat'', startIndex = 0, letterStartIndex = 0, letterEndIndex = 3\<rparr>,
               \<lparr>word = ''dog'', startIndex = 4, letterStartIndex = 3, letterEndIndex = 6\<rparr>] \<and>
         touches ([\<lparr>word = ''cat'', startIndex = 0, letterStartIndex = 0, letterEndIndex = 3\<rparr>,
               \<lparr>word = ''dog'', startIndex = 4, letterStartIndex = 3, letterEndIndex = 6\<rparr>] ! k) 4)"
proof -
  have e: "analyzeTitleTitle ''Cat Dog'' =
     \<lparr>original = ''Cat Dog'', letters = ''catdog'', letterPositions = [0, 1, 2, 4, 5, 6],
      words = [\<lparr>word = ''cat'', startIndex = 0, letterStartIndex = 0, letterEndIndex = 3\<rparr>,
               \<lparr>word = ''dog'', startIndex = 4, letterStartIndex = 3, letterEndIndex = 6\<rparr>],
      initials = ''cd''\<rparr>"
    by code_simp
  note t = analyzeTitleTitle_establishes_invariant [of "''Cat Dog''", unfolded e]
  from t have i: "titleInfoInvariant
     \<lparr>original = ''Cat Dog'', letters = ''catdog'', letterPositions = [0, 1, 2, 4, 5, 6],
      words = [\<lparr>word = ''cat'', startIndex = 0, letterStartIndex = 0, letterEndIndex = 3\<rparr>,
               \<lparr>word = ''dog'', startIndex = 4, letterStartIndex = 3, letterEndIndex = 6\<rparr>],
      initials = ''cd''\<rparr>" by (rule conjunct2 [THEN conjunct1])
  from t have u: "\<exists>!k. k < length [\<lparr>word = ''cat'', startIndex = 0, letterStartIndex = 0, letterEndIndex = 3\<rparr>,
               \<lparr>word = ''dog'', startIndex = 4, letterStartIndex = 3, letterEndIndex = 6\<rparr>] \<and>
         touches ([\<lparr>word = ''cat'', startIndex = 0, letterStartIndex = 0, letterEndIndex = 3\<rparr>,
               \<lparr>word = ''dog'', startIndex = 4, letterStartIndex = 3, letterEndIndex = 6\<rparr>] ! k) 4"
    by simp
  have l: "(4 :: nat) < length ''catdog''" by simp
  show ?thesis by (intro conjI e i l u)
qed

lemma startLetterInner_v1_total: "\<exists>s'. startLetterInner_v1 tws letterIdx s = Some s'"
proof (induction tws)
  case Nil
  show ?case by simp
next
  case (Cons tw tws)
  have "inWord tw letterIdx \<Longrightarrow> int (letterEndIndex tw) - int (letterStartIndex tw) \<noteq> 0"
    by (auto simp: inWord_def)
  with Cons show ?case by (auto simp: Let_def jsDivide_def)
qed

lemma startLetterLoop_v1_total: "\<exists>s'. startLetterLoop_v1 ti letterIndices s = Some s'"
proof (induction letterIndices arbitrary: s)
  case Nil
  show ?case by simp
next
  case (Cons letterIdx rest)
  obtain s1 where "startLetterInner_v1 (words ti) letterIdx s = Some s1"
    using startLetterInner_v1_total by blast
  with Cons [of s1] show ?case by simp
qed

lemma initialsLoop_pos: "0 < initialsLoop wl ini 0 0 \<Longrightarrow> ini \<noteq> []"
  by (subst (asm) initialsLoop.simps) (auto split: if_splits)

lemma calculateNiceness_v1_total:
  assumes "words ti \<noteq> []" and "w \<noteq> []"
  shows "\<exists>n. calculateNiceness_v1 ti w idxs = Some n"
proof -
  obtain s where s: "startLetterLoop_v1 ti (map (indexOf (letterPositions ti)) idxs) 0 = Some s"
    using startLetterLoop_v1_total by blast
  have i: "0 < initialsLoop (toLowerCase w) (initials ti) 0 0 \<Longrightarrow> initials ti \<noteq> []"
    by (rule initialsLoop_pos)
  show ?thesis
    using assms s i by (auto simp: calculateNiceness_v1_def Let_def jsDivide_def)
qed

lemma exactLoop_v1_total:
  assumes "letters ti \<noteq> [] \<longrightarrow> words ti \<noteq> []" and "1 \<le> minLength"
  shows "\<exists>r. exactLoop calculateNiceness_v1 ti minLength active searchLower ws matches = Some r"
proof (induction ws arbitrary: matches)
  case Nil
  show ?case by simp
next
  case (Cons w ws)
  show ?case
  proof (cases "length w < minLength \<or> length w > length (letters ti) \<or>
                (active \<and> \<not> stringIncludes w searchLower) \<or> findWordInTitle ti w = None")
    case True
    with Cons [of matches] show ?thesis by (auto split: if_splits)
  next
    case False
    then obtain idxs where f: "findWordInTitle ti w = Some idxs" by auto
    from False assms have "w \<noteq> []" "words ti \<noteq> []" by auto
    then obtain n where n: "calculateNiceness_v1 ti w idxs = Some n"
      using calculateNiceness_v1_total by blast
    from False f n Cons show ?thesis by auto
  qed
qed

lemma splitLoop_total:
  "words ti \<noteq> [] \<Longrightarrow> w \<noteq> [] \<Longrightarrow>
     \<exists>r. splitLoop ti wordSet minComponentLength w idxs splitPoint st = Some r"
proof (induction ti wordSet minComponentLength w idxs splitPoint st rule: splitLoop.induct)
  case (1 ti wordSet minComponentLength w idxs splitPoint seen results)
  obtain n where n: "calculateNiceness_v1 ti w idxs = Some n"
    using calculateNiceness_v1_total [OF "1.prems"] by blast
  show ?case
    using "1.IH" "1.prems" n
    by (subst splitLoop.simps) (auto simp: Let_def)
qed

lemma compoundWordsLoop_total:
  assumes "letters ti \<noteq> [] \<longrightarrow> words ti \<noteq> []" and "1 \<le> minComponentLength"
  shows "\<exists>r. compoundWordsLoop ti wordSet minComponentLength maxResults ws st = Some r"
proof (induction ws arbitrary: st)
  case Nil
  show ?case by (cases st) simp
next
  case (Cons w ws)
  obtain seen results where st: "st = (seen, results)" by (cases st)
  show ?case
  proof (cases "length w < minComponentLength * 2 \<or> length w > length (letters ti) \<or>
                findWordInTitle ti w = None")
    case True
    with Cons [of st] st show ?thesis by (auto split: if_splits)
  next
    case False
    then obtain idxs where f: "findWordInTitle ti w = Some idxs" by auto
    from False assms have "w \<noteq> []" "words ti \<noteq> []" by auto
    then obtain seen' results' where
      s: "splitLoop ti wordSet minComponentLength w idxs minComponentLength (seen, results)
            = Some (seen', results')"
      using splitLoop_total by (metis surj_pair)
    from Cons [of "(seen', results')"] False f s st show ?thesis by auto
  qed
qed

lemma findAllMatches_v1_total:
  assumes "titleInfoInvariant ti" and "1 \<le> minLength"
  shows "\<exists>exact compound near. findAllMatches_v1 ti allWords wordSet minLength maxResults
           searchTerm includeCompounds includeNearMatches = Some (exact, compound, near)"
proof -
  have w: "letters ti \<noteq> [] \<longrightarrow> words ti \<noteq> []"
  proof
    assume "letters ti \<noteq> []"
    then have "0 < length (letters ti)" by simp
    with assms(1) show "words ti \<noteq> []" unfolding titleInfoInvariant_def by fastforce
  qed
  obtain e where e: "exactLoop calculateNiceness_v1 ti minLength (searchTerm \<noteq> [])
      (toLowerCase searchTerm) allWords [] = Some e"
    using exactLoop_v1_total [OF w assms(2)] by blast
  have "1 \<le> (3 :: nat)" by simp
  from compoundWordsLoop_total [OF w this]
  obtain c where c: "compoundWordsLoop ti wordSet 3 maxResults allWords ({}, []) = Some c"
    by blast
  obtain n where n: "findNearMatches ti allWords 2 (maxResults div 2) = Some n"
    using findNearMatches_total by blast
  show ?thesis
    by (simp add: findAllMatches_v1_def Let_def e c n findCompoundWords_def)
qed

text \<open>
  C6. \<^verbatim>\<open>findNearMatches\<close> always returns, and every match it returns has type near, an edit
  distance to the lowercased initials between 1 and \<^verbatim>\<open>maxEditDistance\<close>, and a word for
  which \<^verbatim>\<open>findWordInTitle\<close> fails. The search that calls it with the bound 2 returns
  for every \<^verbatim>\<open>TitleInfo\<close> that satisfies the data-model invariant and every \<^verbatim>\<open>minLength\<close>
  of at least 1; in a result of it the matches of type near are those of the near list, and
  none of their words is the word of an exact match of the same result.
\<close>

theorem near_matches_are_near:
  "(\<exists>r. findNearMatches ti allWords maxEditDistance maxResults = Some r) \<and>
   (\<forall>r. findNearMatches ti allWords maxEditDistance maxResults = Some r \<longrightarrow>
      (\<forall>m \<in> set r. isNearMatch ti maxEditDistance m)) \<and>
   (titleInfoInvariant ti \<and> 1 \<le> minLength \<longrightarrow>
      (\<exists>exact compound near.
         findAllMatches_v1 ti allWords wordSet minLength maxResults searchTerm includeCompounds
           includeNearMatches = Some (exact, compound, near))) \<and>
   (\<forall>exact compound near.
      findAllMatches_v1 ti allWords wordSet minLength maxResults searchTerm includeCompounds
        includeNearMatches = Some (exact, compound, near) \<longrightarrow>
      (\<forall>m \<in> set exact \<union> set compound. mtype m \<noteq> Near) \<and>
      (\<forall>m \<in> set near. isNearMatch ti 2 m \<and> mword m \<notin> mword ` set exact))"
proof (intro conjI allI impI)
  show "\<exists>r. findNearMatches ti allWords maxEditDistance maxResults = Some r"
    by (rule findNearMatches_total)
  show "\<forall>m \<in> set r. isNearMatch ti maxEditDistance m"
    if "findNearMatches ti allWords maxEditDistance maxResults = Some r" for r
    using that by (rule findNearMatches_inv)
  show "\<exists>exact compound near.
         findAllMatches_v1 ti allWords wordSet minLength maxResults searchTerm includeCompounds
           includeNearMatches = Some (exact, compound, near)"
    if "titleInfoInvariant ti \<and> 1 \<le> minLength"
    using that by (simp add: findAllMatches_v1_total)
  fix exact compound near
  assume a: "findAllMatches_v1 ti allWords wordSet minLength maxResults searchTerm includeCompounds
        includeNearMatches = Some (exact, compound, near)"
  note p = findAllMatches_v1_parts [OF a]
  from p(1,2) show "\<forall>m \<in> set exact \<union> set compound. mtype m \<noteq> Near" by auto
  show "\<forall>m \<in> set near. isNearMatch ti 2 m \<and> mword m \<notin> mword ` set exact"
  proof
    fix m assume m: "m \<in> set near"
    with p(3) have n: "isNearMatch ti 2 m" by simp
    then have "findWordInTitle ti (mword m) = None" by (simp add: isNearMatch_def)
    with p(1) have "mword m \<notin> mword ` set exact" by force
    with n show "isNearMatch ti 2 m \<and> mword m \<notin> mword ` set exact" by simp
  qed
qed

theorem near_matches_are_near_witness:
  "titleInfoInvariant (analyzeTitleTitle ''Distributed Consensus Engine'') \<and> (1 :: nat) \<le> 3 \<and>
   (\<exists>exact compound near.
     findAllMatches_v1 (analyzeTitleTitle ''Distributed Consensus Engine'')
       [''dice'', ''dce'', ''once'', ''duck''] (set [''dice'', ''dce'', ''once'', ''duck''])
       3 10 '''' True True = Some (exact, compound, near) \<and>
     map mword exact = [''dce'', ''dice''] \<and> map mword near = [''duck'', ''once''] \<and>
     map editDist near = [Some 2, Some 2] \<and>
     editDistance ''duck'' ''dce'' = 2 \<and>
     findWordInTitle (analyzeTitleTitle ''Distributed Consensus Engine'') ''duck'' = None \<and>
     (\<forall>m \<in> set near. isNearMatch (analyzeTitleTitle ''Distributed Consensus Engine'') 2 m \<and>
                      mword m \<notin> mword ` set exact))"
proof -
  let ?ti = "analyzeTitleTitle ''Distributed Consensus Engine''"
  let ?r = "findAllMatches_v1 ?ti [''dice'', ''dce'', ''once'', ''duck'']
       (set [''dice'', ''dce'', ''once'', ''duck'']) 3 10 '''' True True"
  have "map_option (\<lambda>(e, c, n). (map mword e, map mword n, map editDist n)) ?r
        = Some ([''dce'', ''dice''], [''duck'', ''once''], [Some 2, Some 2])"
    by code_simp
  then obtain exact compound near where r: "?r = Some (exact, compound, near)"
    and m: "map mword exact = [''dce'', ''dice'']" "map mword near = [''duck'', ''once'']"
      "map editDist near = [Some 2, Some 2]"
    by (cases ?r) auto
  have d: "editDistance ''duck'' ''dce'' = 2" by code_simp
  have f: "findWordInTitle ?ti ''duck'' = None" by code_simp
  from near_matches_are_near [where ti = ?ti and allWords = "[''dice'', ''dce'', ''once'', ''duck'']"
      and maxEditDistance = 2 and maxResults = 10
      and wordSet = "set [''dice'', ''dce'', ''once'', ''duck'']" and minLength = 3
      and searchTerm = "''''" and includeCompounds = True and includeNearMatches = True] r
  have t: "\<forall>m \<in> set near. isNearMatch ?ti 2 m \<and> mword m \<notin> mword ` set exact"
    by blast
  have i: "titleInfoInvariant ?ti" by (rule analyzeTitleTitle_invariant)
  have o: "(1 :: nat) \<le> 3" by simp
  show ?thesis
    by (intro conjI i o, rule exI [of _ exact], rule exI [of _ compound], rule exI [of _ near])
       (intro conjI r m d f t)
qed

section \<open>Verification: compounds and the dictionary\<close>

text \<open>
  C4. In a result of \<^verbatim>\<open>findAllMatches\<close> the matches of type compound are those of the
  compound list, and the word of none of them is a member of the supplied set. When that set
  is \<^verbatim>\<open>buildWordSet\<close> of a lowercase dictionary, no compound word is a dictionary entry.
\<close>

theorem compound_not_in_dictionary:
  assumes "findAllMatches ti allWords wordSet minLength maxResults searchTerm includeCompounds
             = Some (exact, compound)"
  shows "(\<forall>m \<in> set exact. mtype m = Exact) \<and>
         (\<forall>m \<in> set compound. mtype m = Compound) \<and>
         (\<forall>m \<in> set exact \<union> set compound. mtype m = Compound \<longrightarrow> mword m \<notin> wordSet) \<and>
         (wordSet = buildWordSet allWords \<and> (\<forall>w \<in> set allWords. toLowerCase w = w) \<longrightarrow>
            (\<forall>m \<in> set compound. mword m \<notin> set allWords))"
proof -
  from findAllMatches_result(1) [OF assms]
  have "set exact \<subseteq> range (exactMatchOf ti)"
    using set_take_subset [of maxResults] by (fastforce simp: set_jsSort)
  then have e: "\<forall>m \<in> set exact. mtype m = Exact"
    by (auto simp: exactMatchOf_def)
  from findAllMatches_result(2) [OF assms]
  have c: "\<forall>m \<in> set compound. mtype m = Compound \<and> mword m \<notin> wordSet"
    by (simp add: fabricated_def)
  have d: "\<forall>m \<in> set compound. mword m \<notin> set allWords"
    if "wordSet = buildWordSet allWords \<and> (\<forall>w \<in> set allWords. toLowerCase w = w)"
  proof -
    from that have "map toLowerCase allWords = allWords" by (simp add: map_idI)
    with that have "wordSet = set allWords" by (simp add: buildWordSet_def)
    with c show ?thesis by simp
  qed
  from e c d show ?thesis by auto
qed

theorem compound_not_in_dictionary_witness:
  "buildWordSet [''cat'', ''dog'', ''at'', ''do'', ''catdog'']
     = set [''cat'', ''dog'', ''at'', ''do'', ''catdog''] \<and>
   map toLowerCase [''cat'', ''dog'', ''at'', ''do'', ''catdog'']
     = [''cat'', ''dog'', ''at'', ''do'', ''catdog''] \<and>
   (\<exists>exact compound.
     findAllMatches (analyzeTitleTitle ''Cat Dog'') [''cat'', ''dog'', ''at'', ''do'', ''catdog'']
       (set [''cat'', ''dog'', ''at'', ''do'', ''catdog'']) 2 10 '''' True = Some (exact, compound) \<and>
     map mword exact = [''catdog'', ''cat'', ''do'', ''dog'', ''at''] \<and>
     map mword compound = [''catdo'', ''atdo'', ''atdog''] \<and>
     (\<forall>m \<in> set exact \<union> set compound. mtype m = Compound \<longrightarrow>
        mword m \<notin> set [''cat'', ''dog'', ''at'', ''do'', ''catdog'']) \<and>
     (\<forall>m \<in> set compound. mword m \<notin> set [''cat'', ''dog'', ''at'', ''do'', ''catdog'']))"
proof -
  let ?d = "[''cat'', ''dog'', ''at'', ''do'', ''catdog'']"
  let ?r = "findAllMatches (analyzeTitleTitle ''Cat Dog'') ?d (set ?d) 2 10 '''' True"
  have b: "buildWordSet ?d = set ?d"
    by (simp add: buildWordSet_def toLowerCase_def toLowerChar_def)
  have l': "map toLowerCase ?d = ?d"
    by (simp add: toLowerCase_def toLowerChar_def)
  have l: "\<forall>w \<in> set ?d. toLowerCase w = w"
    by (simp add: toLowerCase_def toLowerChar_def)
  have "map_option (\<lambda>(e, c). (map mword e, map mword c)) ?r
        = Some ([''catdog'', ''cat'', ''do'', ''dog'', ''at''], [''catdo'', ''atdo'', ''atdog''])"
    by code_simp
  then obtain exact compound where r: "?r = Some (exact, compound)"
    and m: "map mword exact = [''catdog'', ''cat'', ''do'', ''dog'', ''at'']"
      "map mword compound = [''catdo'', ''atdo'', ''atdog'']"
    by (cases ?r) auto
  note t = compound_not_in_dictionary [OF r]
  from t have t1: "\<forall>m \<in> set exact \<union> set compound. mtype m = Compound \<longrightarrow> mword m \<notin> set ?d"
    by (rule conjunct2 [THEN conjunct2, THEN conjunct1])
  from t have "set ?d = buildWordSet ?d \<and> (\<forall>w \<in> set ?d. toLowerCase w = w) \<longrightarrow>
      (\<forall>m \<in> set compound. mword m \<notin> set ?d)"
    by (rule conjunct2 [THEN conjunct2, THEN conjunct2])
  with b [symmetric] l have t2: "\<forall>m \<in> set compound. mword m \<notin> set ?d"
    by blast
  show ?thesis
    by (intro conjI b l', rule exI [of _ exact], rule exI [of _ compound]) (intro conjI r m t1 t2)
qed

section \<open>The unguarded scorer of the earlier copy\<close>

text \<open>
  The earlier \<^verbatim>\<open>calculateNiceness\<close> divides by the number of title words and by the word
  length without a guard: for a title without letters, or for the empty word, the score is
  not a number.
\<close>

lemma calculateNiceness_v1_not_a_number:
  "calculateNiceness_v1 (analyzeTitleTitle '''') '''' [] = None \<and>
   calculateNiceness_v1 (analyzeTitleTitle ''Cat Dog'') '''' [] = None"
  by code_simp

end
